theory Spec2Isabelle
  imports Complex_Main "HOL-Library.Multiset" "HOL-Library.Char_ord" "HOL-Library.List_Lexorder"
begin

section \<open>Retrosynthesis route search and reranking (Transformer/rerank_star.py)\<close>

text \<open>
  The module keeps its models, vocabulary, stock and command-line arguments in module-level
  globals. They are gathered in one record that every function of the model takes as its
  first argument. The neural networks and the chemistry toolkit are collaborators: each is a
  field holding a function, and a call that raises in Python returns \<open>None\<close>.
  Floating-point scores are read as real numbers (no rounding, no infinities, no NaN);
  integers stored in the float tensor of the decoder are read as natural numbers.
\<close>

datatype py_error = IndexError | KeyError | ArgumentError | CollaboratorError

record 'm env =
  MolFromSmiles :: "string \<Rightarrow> 'm option"
  MolToSmiles :: "'m \<Rightarrow> string"
  MolToInchiKey :: "'m \<Rightarrow> string"
  RemoveHs :: "'m \<Rightarrow> 'm option"
  value_model :: "'m \<Rightarrow> real"
  get_output_probs :: "string \<Rightarrow> string \<Rightarrow> (nat \<Rightarrow> real) option"
  argsort :: "(real \<times> nat) list \<Rightarrow> (real \<times> nat) list"
  get_rerank_scores :: "string list \<Rightarrow> string list \<Rightarrow> real list option"
  ix_to_char :: "nat \<Rightarrow> char option"
  vocab_size :: nat
  stock_inchikeys :: "string set"
  beam_size :: int
  max_length :: int
  alpha :: real

subsection \<open>get_beam: the single-step beam decoder\<close>

text \<open>
  A row of the tensor \<open>result\<close> is a pair: column 0 is the accumulated score, column 1 the
  packed pair (beam index, symbol index).
\<close>

type_synonym row = "real \<times> nat"

definition pack_index :: "nat \<Rightarrow> nat \<Rightarrow> nat" where
  "pack_index i j = i * 100 + j"

definition symbol_index :: "nat \<Rightarrow> nat" where
  "symbol_index v = v mod 100"

definition beam_index :: "nat \<Rightarrow> nat" where
  "beam_index v = v div 100"

text \<open>Rows of step 0: one per symbol, column 1 holds the symbol index alone.\<close>

definition first_rows :: "(nat \<Rightarrow> real) \<Rightarrow> nat \<Rightarrow> row list" where
  "first_rows prob V = map (\<lambda>i. (- log 10 (prob i), i)) [0..<V]"

text \<open>Rows of a later step for the live string number \<open>i\<close> with score \<open>sc\<close>.\<close>

definition line_rows :: "(nat \<Rightarrow> real) \<Rightarrow> nat \<Rightarrow> real \<Rightarrow> nat \<Rightarrow> row list" where
  "line_rows prob V sc i = map (\<lambda>j. (- log 10 (prob j) + sc, pack_index i j)) [0..<V]"

fun later_rows :: "'m env \<Rightarrow> string \<Rightarrow> string list \<Rightarrow> real list \<Rightarrow> nat \<Rightarrow> py_error + row list" where
  "later_rows e product [] scores i = Inr []"
| "later_rows e product (l # ls) scores i =
     (case get_output_probs e product l of
        None \<Rightarrow> Inl CollaboratorError
      | Some prob \<Rightarrow>
          (case scores of
             [] \<Rightarrow> Inl IndexError
           | sc # scs \<Rightarrow>
               (case later_rows e product ls scs (Suc i) of
                  Inl err \<Rightarrow> Inl err
                | Inr rs \<Rightarrow> Inr (line_rows prob (vocab_size e) sc i @ rs))))"

definition build_result :: "'m env \<Rightarrow> string \<Rightarrow> nat \<Rightarrow> string list \<Rightarrow> real list \<Rightarrow> py_error + row list" where
  "build_result e product step lines scores =
     (if step = 0 then
        (case get_output_probs e product [] of
           None \<Rightarrow> Inl CollaboratorError
         | Some prob \<Rightarrow> Inr (first_rows prob (vocab_size e)))
      else later_rows e product lines scores 0)"

text \<open>
  The selection loop \<open>for i in range(object_size)\<close>. Its state is
  (final_beams, object_size, new_beams, new_scores); the range is fixed when the loop starts.
\<close>

type_synonym sel_state = "(string \<times> real) list \<times> int \<times> string list \<times> real list"

fun select_rows :: "'m env \<Rightarrow> string list \<Rightarrow> row list \<Rightarrow> nat list \<Rightarrow> sel_state \<Rightarrow> py_error + sel_state" where
  "select_rows e lines ranked [] st = Inr st"
| "select_rows e lines ranked (i # rest) (final_beams, object_size, new_beams, new_scores) =
     (if length ranked \<le> i then Inl IndexError
      else
        (case ix_to_char e (symbol_index (snd (ranked ! i))) of
           None \<Rightarrow> Inl KeyError
         | Some symbol \<Rightarrow>
             (if length lines \<le> beam_index (snd (ranked ! i)) then Inl IndexError
              else if symbol = CHR ''$'' then
                select_rows e lines ranked rest
                  ((if lines ! beam_index (snd (ranked ! i)) @ [symbol] \<noteq> ''$''
                    then final_beams @ [(lines ! beam_index (snd (ranked ! i)) @ [symbol], fst (ranked ! i))]
                    else final_beams),
                   object_size - 1, new_beams, new_scores)
              else
                select_rows e lines ranked rest
                  (final_beams, object_size,
                   new_beams @ [lines ! beam_index (snd (ranked ! i)) @ [symbol]],
                   new_scores @ [fst (ranked ! i)]))))"

text \<open>
  The generation loop \<open>for step in range(args.max_length)\<close>. Its state is
  (lines, scores, final_beams, object_size). Both \<open>break\<close>s return the state.
\<close>

type_synonym beam_state = "string list \<times> real list \<times> (string \<times> real) list \<times> int"

fun beam_steps :: "'m env \<Rightarrow> string \<Rightarrow> nat list \<Rightarrow> beam_state \<Rightarrow> py_error + beam_state" where
  "beam_steps e product [] st = Inr st"
| "beam_steps e product (step # rest) (lines, scores, final_beams, object_size) =
     (case build_result e product step lines scores of
        Inl err \<Rightarrow> Inl err
      | Inr result \<Rightarrow>
          (if lines = [] then Inr (lines, scores, final_beams, object_size)
           else
             (case select_rows e lines (argsort e result) [0..<nat object_size]
                     (final_beams, object_size, [], []) of
                Inl err \<Rightarrow> Inl err
              | Inr (final_beams', object_size', new_beams, new_scores) \<Rightarrow>
                  (if new_beams = [] then Inr (new_beams, new_scores, final_beams', object_size')
                   else beam_steps e product rest (new_beams, new_scores, final_beams', object_size')))))"

text \<open>Length normalisation of the finished strings, then the stable sort by that score.\<close>

definition normalize :: "string \<times> real \<Rightarrow> string \<times> real" where
  "normalize fb = (fst fb, snd fb / real (length (fst fb)))"

text \<open>\<open>str.split\<close> on one separator character: the empty string gives one empty piece.\<close>

fun split_on :: "char \<Rightarrow> string \<Rightarrow> string list" where
  "split_on c [] = [[]]"
| "split_on c (x # xs) =
     (if x = c then [] # split_on c xs
      else (case split_on c xs of [] \<Rightarrow> [[x]] | w # ws \<Rightarrow> (x # w) # ws))"

text \<open>
  The fragments of a finished string: the set of its pieces between dots (a list without
  duplicates stands for the Python set), each with every \<open>$\<close> removed.
\<close>

definition fragments :: "string \<Rightarrow> string list" where
  "fragments s = map (filter (\<lambda>ch. ch \<noteq> CHR ''$'')) (remdups (split_on CHR ''.'' s))"

text \<open>
  The loop that builds \<open>answer\<close>: stop when \<open>aim_size\<close> is 0, skip a finished string with a
  fragment that does not parse, keep the sorted set of canonical strings otherwise.
\<close>

fun collect_answers :: "'m env \<Rightarrow> (string \<times> real) list \<Rightarrow> int \<Rightarrow> (string list \<times> real) list" where
  "collect_answers e [] aim_size = []"
| "collect_answers e (fb # fbs) aim_size =
     (if aim_size = 0 then []
      else
        (let valid = List.map_filter (MolFromSmiles e) (fragments (fst fb));
             sms = remdups (map (MolToSmiles e) valid)
         in if length valid \<noteq> length (fragments (fst fb)) then collect_answers e fbs aim_size
            else if sms \<noteq> [] then (sort sms, snd fb) # collect_answers e fbs (aim_size - 1)
            else collect_answers e fbs aim_size))"

definition get_beam :: "'m env \<Rightarrow> string \<Rightarrow> int \<Rightarrow> py_error + (string list \<times> real) list" where
  "get_beam e product bsize =
     (case beam_steps e product [0..<nat (max_length e)]
             (replicate (nat bsize) [], replicate (nat bsize) 0, [], bsize) of
        Inl err \<Rightarrow> Inl err
      | Inr (lines, scores, final_beams, object_size) \<Rightarrow>
          Inr (collect_answers e (sort_key snd (map normalize final_beams)) bsize))"

subsection \<open>Value estimate, identity keys, stock membership\<close>

definition value_fn :: "'m env \<Rightarrow> string \<Rightarrow> py_error + real" where
  "value_fn e smi =
     (case MolFromSmiles e smi of
        None \<Rightarrow> Inl ArgumentError
      | Some mol \<Rightarrow> Inr (value_model e mol))"

definition inchikey14 :: "'m env \<Rightarrow> string \<Rightarrow> py_error + string" where
  "inchikey14 e smi =
     (case MolFromSmiles e smi of
        None \<Rightarrow> Inl ArgumentError
      | Some mol \<Rightarrow> Inr (take 14 (MolToInchiKey e mol)))"

definition cano_smiles :: "'m env \<Rightarrow> string \<Rightarrow> 'm option \<times> string" where
  "cano_smiles e smiles =
     (case MolFromSmiles e smiles of
        None \<Rightarrow> (None, smiles)
      | Some tmp \<Rightarrow>
          (case RemoveHs e tmp of
             None \<Rightarrow> (None, smiles)
           | Some tmp' \<Rightarrow> (Some tmp', MolToSmiles e tmp')))"

definition check_reactant_is_material :: "'m env \<Rightarrow> string \<Rightarrow> py_error + bool" where
  "check_reactant_is_material e reactant =
     (case inchikey14 e reactant of
        Inl err \<Rightarrow> Inl err
      | Inr k \<Rightarrow> Inr (k \<in> stock_inchikeys e))"

fun check_reactants_are_material :: "'m env \<Rightarrow> string list \<Rightarrow> py_error + bool" where
  "check_reactants_are_material e [] = Inr True"
| "check_reactants_are_material e (reactant # rest) =
     (case inchikey14 e reactant of
        Inl err \<Rightarrow> Inl err
      | Inr k \<Rightarrow> (if k \<notin> stock_inchikeys e then Inr False else check_reactants_are_material e rest))"

subsection \<open>get_route_result: the multi-step search\<close>

record route_info =
  route :: "string list"
  depth :: int

record node =
  score :: real
  routes_info :: "route_info list"
  starting_materials :: "string list"

record answer =
  answer_score :: real
  answer_materials :: "string list"

record search_state =
  answer_set :: "answer list"
  nxt_queue :: "node list"
  beam_calls :: "(string list \<times> int) list"
  origins :: "string list list"

type_synonym decoder = "string \<Rightarrow> int \<Rightarrow> py_error + (string list \<times> real) list"

fun for_each :: "('a \<Rightarrow> 's \<Rightarrow> py_error + 's) \<Rightarrow> 'a list \<Rightarrow> 's \<Rightarrow> py_error + 's" where
  "for_each body [] st = Inr st"
| "for_each body (x # xs) st =
     (case body x st of
        Inl err \<Rightarrow> Inl err
      | Inr st' \<Rightarrow> for_each body xs st')"

type_synonym part_state = "real \<times> route_info list \<times> string list"

definition partition_reactant :: "'m env \<Rightarrow> string list \<Rightarrow> int \<Rightarrow> string \<Rightarrow> part_state \<Rightarrow> py_error + part_state" where
  "partition_reactant e first_route d reactant st =
     (case st of (estimation_cost, iter_routes, iter_starting_materials) \<Rightarrow>
        (case check_reactant_is_material e reactant of
           Inl err \<Rightarrow> Inl err
         | Inr is_material \<Rightarrow>
             (if is_material then Inr (estimation_cost, iter_routes, iter_starting_materials @ [reactant])
              else
                (case value_fn e reactant of
                   Inl err \<Rightarrow> Inl err
                 | Inr v \<Rightarrow>
                     Inr (estimation_cost + v,
                          \<lparr>route = first_route @ [reactant], depth = d + 1\<rparr> # iter_routes,
                          iter_starting_materials)))))"

definition expand_solution ::
  "'m env \<Rightarrow> node \<Rightarrow> string list \<Rightarrow> int \<Rightarrow> string \<Rightarrow> string list \<times> real \<Rightarrow> search_state \<Rightarrow> py_error + search_state" where
  "expand_solution e item first_route d expansion_mol expansion_solution st =
     (case routes_info item of
        [] \<Rightarrow> Inl IndexError
      | popped # iter_routes \<Rightarrow>
          (let iter_starting_materials = starting_materials item;
               expansion_reactants = sort (fst expansion_solution);
               reaction_cost = snd expansion_solution
           in case check_reactants_are_material e expansion_reactants of
                Inl err \<Rightarrow> Inl err
              | Inr are_material \<Rightarrow>
                  (if are_material \<and> length iter_routes = 0 then
                     (case value_fn e expansion_mol of
                        Inl err \<Rightarrow> Inl err
                      | Inr v \<Rightarrow>
                          Inr (st\<lparr>answer_set := answer_set st @
                                   [\<lparr>answer_score = score item + reaction_cost - v,
                                     answer_materials = iter_starting_materials @ expansion_reactants\<rparr>],
                                 origins := origins st @ [first_route]\<rparr>))
                   else
                     (case for_each (partition_reactant e first_route d) expansion_reactants
                             (0, iter_routes, iter_starting_materials) of
                        Inl err \<Rightarrow> Inl err
                      | Inr (estimation_cost, iter_routes', iter_starting_materials') \<Rightarrow>
                          (case value_fn e expansion_mol of
                             Inl err \<Rightarrow> Inl err
                           | Inr v \<Rightarrow>
                               Inr (st\<lparr>nxt_queue := nxt_queue st @
                                        [\<lparr>score = score item + reaction_cost + estimation_cost - v,
                                          routes_info = iter_routes',
                                          starting_materials = iter_starting_materials'\<rparr>]\<rparr>))))))"

definition expand_item :: "decoder \<Rightarrow> 'm env \<Rightarrow> int \<Rightarrow> node \<Rightarrow> search_state \<Rightarrow> py_error + search_state" where
  "expand_item gb e max_depth item st =
     (case routes_info item of
        [] \<Rightarrow> Inl IndexError
      | first_route_info # others \<Rightarrow>
          (if depth first_route_info > max_depth then Inr st
           else if route first_route_info = [] then Inl IndexError
           else
             (case gb (last (route first_route_info)) (beam_size e) of
                Inl err \<Rightarrow> Inl err
              | Inr solutions \<Rightarrow>
                  for_each
                    (expand_solution e item (route first_route_info) (depth first_route_info)
                       (last (route first_route_info)))
                    solutions
                    (st\<lparr>beam_calls := beam_calls st @ [(route first_route_info, depth first_route_info)]\<rparr>))))"

definition slice_to :: "int \<Rightarrow> 'a list \<Rightarrow> 'a list" where
  "slice_to n xs = (if 0 \<le> n then take (nat n) xs else take (length xs - nat (- n)) xs)"

definition next_round :: "decoder \<Rightarrow> 'm env \<Rightarrow> int \<Rightarrow> node list \<Rightarrow> search_state \<Rightarrow> py_error + node list \<times> search_state" where
  "next_round gb e max_depth queue st =
     (case for_each (expand_item gb e max_depth) queue (st\<lparr>nxt_queue := []\<rparr>) of
        Inl err \<Rightarrow> Inl err
      | Inr st' \<Rightarrow> Inr (slice_to (beam_size e) (sort_key score (nxt_queue st')), st'))"

function search_loop :: "decoder \<Rightarrow> 'm env \<Rightarrow> int \<Rightarrow> node list \<Rightarrow> search_state \<Rightarrow> py_error + search_state" where
  "search_loop gb e max_depth queue st =
     (if length queue = 0 then Inr st
      else
        (case next_round gb e max_depth queue st of
           Inl err \<Rightarrow> Inl err
         | Inr (queue', st') \<Rightarrow> search_loop gb e max_depth queue' st'))"
  by pat_completeness auto

definition open_weight :: "int \<Rightarrow> route_info \<Rightarrow> nat" where
  "open_weight max_depth r = nat (max_depth + 1 - depth r)"

definition node_measure :: "int \<Rightarrow> node \<Rightarrow> nat multiset" where
  "node_measure max_depth n = mset (map (open_weight max_depth) (routes_info n))"

lemma for_each_append:
  "for_each body (xs @ ys) st =
     (case for_each body xs st of Inl err \<Rightarrow> Inl err | Inr st' \<Rightarrow> for_each body ys st')"
  by (induction xs arbitrary: st) (auto split: sum.splits)

lemma for_each_invariant:
  assumes "for_each body xs st = Inr st'"
    and "P st"
    and "\<And>x s s'. x \<in> set xs \<Longrightarrow> P s \<Longrightarrow> body x s = Inr s' \<Longrightarrow> P s'"
  shows "P st'"
  using assms
proof (induction xs arbitrary: st)
  case Nil
  then show ?case by simp
next
  case (Cons x xs)
  from Cons.prems(1) obtain s1 where b: "body x st = Inr s1" and r: "for_each body xs s1 = Inr st'"
    by (auto split: sum.splits)
  have "P s1" using Cons.prems(3)[OF _ Cons.prems(2) b] by simp
  then show ?case using Cons.IH[OF r] Cons.prems(3) by auto
qed

lemma partition_reactant_routes:
  assumes "partition_reactant e first_route d reactant (c, ir, sm) = Inr (c', ir', sm')"
  shows "\<exists>new. ir' = new @ ir \<and> (\<forall>r \<in> set new. depth r = d + 1)"
  using assms
  by (auto simp: partition_reactant_def split: sum.splits if_splits)

lemma partition_loop_routes:
  assumes "for_each (partition_reactant e first_route d) rs (c, ir, sm) = Inr (c', ir', sm')"
  shows "\<exists>new. ir' = new @ ir \<and> (\<forall>r \<in> set new. depth r = d + 1)"
proof -
  let ?P = "\<lambda>s. \<exists>new. fst (snd s) = new @ ir \<and> (\<forall>r \<in> set new. depth r = d + 1)"
  have "?P (c', ir', sm')"
  proof (rule for_each_invariant[OF assms, where P = ?P])
    show "?P (c, ir, sm)" by simp
  next
    fix x s s'
    assume p: "?P s" and b: "partition_reactant e first_route d x s = Inr s'"
    obtain c1 ir1 sm1 where s: "s = (c1, ir1, sm1)" by (cases s) auto
    obtain c2 ir2 sm2 where s': "s' = (c2, ir2, sm2)" by (cases s') auto
    from partition_reactant_routes[OF b[unfolded s s']] obtain new where
      n: "ir2 = new @ ir1" "\<forall>r \<in> set new. depth r = d + 1" by blast
    from p s obtain new0 where n0: "ir1 = new0 @ ir" "\<forall>r \<in> set new0. depth r = d + 1" by auto
    have "ir2 = (new @ new0) @ ir" using n n0 by simp
    moreover have "\<forall>r \<in> set (new @ new0). depth r = d + 1" using n n0 by auto
    ultimately show "?P s'" unfolding s' by (metis fst_conv snd_conv)
  qed
  then show ?thesis by simp
qed

definition child_of :: "node \<Rightarrow> int \<Rightarrow> node \<Rightarrow> bool" where
  "child_of item d n \<longleftrightarrow> (\<exists>new. routes_info n = new @ tl (routes_info item) \<and> (\<forall>r \<in> set new. depth r = d + 1))"

lemma expand_solution_children:
  assumes "expand_solution e item first_route d mol sol st = Inr st'"
  shows "\<exists>ns. nxt_queue st' = nxt_queue st @ ns \<and> (\<forall>n \<in> set ns. child_of item d n)"
proof -
  from assms obtain popped iter_routes where ri: "routes_info item = popped # iter_routes"
    by (auto simp: expand_solution_def split: list.splits)
  from assms ri obtain am where am: "check_reactants_are_material e (sort (fst sol)) = Inr am"
    by (auto simp: expand_solution_def Let_def split: sum.splits)
  show ?thesis
  proof (cases "am \<and> length iter_routes = 0")
    case True
    with assms ri am have "nxt_queue st' = nxt_queue st"
      by (auto simp: expand_solution_def Let_def split: sum.splits)
    then show ?thesis by (intro exI[of _ "[]"]) simp
  next
    case False
    with assms ri am obtain c ir' sm' v where
      p: "for_each (partition_reactant e first_route d) (sort (fst sol)) (0, iter_routes, starting_materials item) = Inr (c, ir', sm')"
      and st': "st' = st\<lparr>nxt_queue := nxt_queue st @ [\<lparr>score = score item + snd sol + c - v, routes_info = ir', starting_materials = sm'\<rparr>]\<rparr>"
      by (auto simp: expand_solution_def Let_def split: sum.splits if_splits)
    from partition_loop_routes[OF p] obtain new where "ir' = new @ iter_routes" "\<forall>r \<in> set new. depth r = d + 1"
      by blast
    then have "child_of item d \<lparr>score = score item + snd sol + c - v, routes_info = ir', starting_materials = sm'\<rparr>"
      using ri by (auto simp: child_of_def)
    then show ?thesis unfolding st' by (intro exI[of _ "[\<lparr>score = score item + snd sol + c - v, routes_info = ir', starting_materials = sm'\<rparr>]"]) simp
  qed
qed

lemma for_each_extends:
  assumes "for_each body xs st = Inr st'"
    and "\<And>x s s'. x \<in> set xs \<Longrightarrow> body x s = Inr s' \<Longrightarrow> \<exists>ns. nxt_queue s' = nxt_queue s @ ns \<and> (\<forall>n \<in> set ns. Q x n)"
  shows "\<exists>ns. nxt_queue st' = nxt_queue st @ ns \<and> (\<forall>n \<in> set ns. \<exists>x \<in> set xs. Q x n)"
  using assms
proof (induction xs arbitrary: st)
  case Nil
  then show ?case by simp
next
  case (Cons x xs)
  from Cons.prems(1) obtain s1 where b: "body x st = Inr s1" and r: "for_each body xs s1 = Inr st'"
    by (auto split: sum.splits)
  from Cons.prems(2)[OF _ b] obtain ns1 where n1: "nxt_queue s1 = nxt_queue st @ ns1" "\<forall>n \<in> set ns1. Q x n"
    by auto
  from Cons.IH[OF r] Cons.prems(2) obtain ns2 where
    n2: "nxt_queue st' = nxt_queue s1 @ ns2" "\<forall>n \<in> set ns2. \<exists>x \<in> set xs. Q x n"
    by (metis list.set_intros(2))
  have "nxt_queue st' = nxt_queue st @ (ns1 @ ns2)" using n1 n2 by simp
  moreover have "\<forall>n \<in> set (ns1 @ ns2). \<exists>y \<in> set (x # xs). Q y n" using n1 n2 by auto
  ultimately show ?case by blast
qed

lemma child_measure:
  assumes "routes_info item = h # t" "depth h \<le> max_depth" "child_of item (depth h) n"
  shows "(node_measure max_depth n, node_measure max_depth item) \<in> mult less_than"
proof -
  from assms(3) assms(1) obtain new where n: "routes_info n = new @ t" "\<forall>r \<in> set new. depth r = depth h + 1"
    by (auto simp: child_of_def)
  let ?I = "mset (map (open_weight max_depth) t)"
  let ?K = "mset (map (open_weight max_depth) new)"
  let ?J = "{#open_weight max_depth h#}"
  have "\<forall>k \<in> set_mset ?K. \<exists>j \<in> set_mset ?J. (k, j) \<in> less_than"
    using n(2) assms(2) by (auto simp: open_weight_def)
  then have "(?I + ?K, ?I + ?J) \<in> mult less_than"
    by (intro one_step_implies_mult) auto
  then show ?thesis using n(1) assms(1) by (simp add: node_measure_def ac_simps)
qed

lemma expand_item_children:
  assumes "expand_item gb e max_depth item st = Inr st'"
  shows "\<exists>ns. nxt_queue st' = nxt_queue st @ ns \<and>
     (\<forall>n \<in> set ns. (node_measure max_depth n, node_measure max_depth item) \<in> mult less_than)"
proof -
  from assms obtain h t where ri: "routes_info item = h # t"
    by (auto simp: expand_item_def split: list.splits)
  show ?thesis
  proof (cases "depth h > max_depth")
    case True
    with assms ri have "st' = st" by (simp add: expand_item_def)
    then show ?thesis by (intro exI[of _ "[]"]) simp
  next
    case False
    with assms ri obtain sols where
      fe: "for_each (expand_solution e item (route h) (depth h) (last (route h))) sols
             (st\<lparr>beam_calls := beam_calls st @ [(route h, depth h)]\<rparr>) = Inr st'"
      by (auto simp: expand_item_def split: if_splits sum.splits)
    from for_each_extends[OF fe, where Q = "\<lambda>x n. child_of item (depth h) n"] expand_solution_children
    obtain ns where ns: "nxt_queue st' = nxt_queue st @ ns" "\<forall>n \<in> set ns. \<exists>x \<in> set sols. child_of item (depth h) n"
      by fastforce
    have "\<forall>n \<in> set ns. (node_measure max_depth n, node_measure max_depth item) \<in> mult less_than"
      using ns(2) child_measure[OF ri] False by auto
    with ns(1) show ?thesis by blast
  qed
qed

lemma set_slice_to: "set (slice_to n xs) \<subseteq> set xs"
  by (auto simp: slice_to_def dest: in_set_takeD)

lemma next_round_decreases:
  assumes "next_round gb e max_depth queue st = Inr (queue', st')" "queue \<noteq> []"
  shows "(mset (map (node_measure max_depth) queue'), mset (map (node_measure max_depth) queue))
           \<in> mult (mult less_than)"
proof -
  from assms(1) have fe: "for_each (expand_item gb e max_depth) queue (st\<lparr>nxt_queue := []\<rparr>) = Inr st'"
    and q': "queue' = slice_to (beam_size e) (sort_key score (nxt_queue st'))"
    by (auto simp: next_round_def split: sum.splits)
  from for_each_extends[OF fe, where Q = "\<lambda>item n. (node_measure max_depth n, node_measure max_depth item) \<in> mult less_than"]
    expand_item_children
  obtain ns where ns: "nxt_queue st' = nxt_queue (st\<lparr>nxt_queue := []\<rparr>) @ ns"
    "\<forall>n \<in> set ns. \<exists>item \<in> set queue. (node_measure max_depth n, node_measure max_depth item) \<in> mult less_than"
    by blast
  have sub: "set queue' \<subseteq> set ns" using q' ns(1) set_slice_to[of "beam_size e" "sort_key score ns"] by auto
  let ?K = "mset (map (node_measure max_depth) queue')"
  let ?J = "mset (map (node_measure max_depth) queue)"
  have "?J \<noteq> {#}" using assms(2) by simp
  moreover have "\<forall>k \<in> set_mset ?K. \<exists>j \<in> set_mset ?J. (k, j) \<in> mult less_than"
    using sub ns(2) by auto
  ultimately have "({#} + ?K, {#} + ?J) \<in> mult (mult less_than)"
    by (rule one_step_implies_mult)
  then show ?thesis by simp
qed

termination search_loop
proof (relation "inv_image (mult (mult less_than)) (\<lambda>(gb, e, max_depth, queue, st). mset (map (node_measure max_depth) queue))")
  show "wf (inv_image (mult (mult less_than)) (\<lambda>(gb, e, max_depth, queue, st). mset (map (node_measure max_depth) queue)))"
    by (intro wf_inv_image wf_mult wf_less_than)
next
  fix gb :: decoder and e :: "'a env" and max_depth queue st x2 x y
  assume "length queue \<noteq> 0" "next_round gb e max_depth queue st = Inr x2" "(x, y) = x2"
  then show "((gb, e, max_depth, x, y), (gb, e, max_depth, queue, st))
      \<in> inv_image (mult (mult less_than)) (\<lambda>(gb, e, max_depth, queue, st). mset (map (node_measure max_depth) queue))"
    using next_round_decreases[of gb e max_depth queue st x y] by auto
qed

declare search_loop.simps [simp del]

subsection \<open>get_route_result: deduplication and reranking\<close>

fun map_err :: "('a \<Rightarrow> py_error + 'b) \<Rightarrow> 'a list \<Rightarrow> py_error + 'b list" where
  "map_err f [] = Inr []"
| "map_err f (x # xs) =
     (case f x of
        Inl err \<Rightarrow> Inl err
      | Inr y \<Rightarrow> (case map_err f xs of Inl err \<Rightarrow> Inl err | Inr ys \<Rightarrow> Inr (y # ys)))"

fun join :: "string \<Rightarrow> string list \<Rightarrow> string" where
  "join sep [] = []"
| "join sep [x] = x"
| "join sep (x # y # ys) = x @ sep @ join sep (y # ys)"

text \<open>
  An entry of \<open>final_answer_set\<close>. The dictionary is created with the keys \<open>score\<close> and
  \<open>answer_keys\<close>; \<open>rerank_score\<close> and \<open>total_score\<close> are added later, so they are optional.
\<close>

record final_answer =
  final_score :: real
  answer_keys :: "string list"
  rerank_score :: "real option"
  total_score :: "real option"

type_synonym dedup_state = "string set \<times> final_answer list \<times> string list \<times> string list"

definition dedup_item :: "'m env \<Rightarrow> string \<Rightarrow> answer \<Rightarrow> dedup_state \<Rightarrow> py_error + dedup_state" where
  "dedup_item e target item st =
     (case st of (record_answers, final_answer_set, rerank_input_list, rerank_output_list) \<Rightarrow>
        (let cano_starting_materials = map (\<lambda>material. snd (cano_smiles e material)) (answer_materials item)
         in case map_err (inchikey14 e) (answer_materials item) of
              Inl err \<Rightarrow> Inl err
            | Inr keys \<Rightarrow>
                (if join ''.'' (sort keys) \<notin> record_answers then
                   Inr (insert (join ''.'' (sort keys)) record_answers,
                        final_answer_set @
                          [\<lparr>final_score = answer_score item, answer_keys = keys,
                            rerank_score = None, total_score = None\<rparr>],
                        rerank_input_list @ [target],
                        rerank_output_list @ [join ''.'' (sort cano_starting_materials)])
                 else Inr st)))"

text \<open>
  The loop over \<open>enumerate(rerank_scores)\<close>: a score beyond the end of \<open>final_answer_set\<close>
  is an IndexError.
\<close>

fun assign_scores :: "real \<Rightarrow> real list \<Rightarrow> final_answer list \<Rightarrow> py_error + final_answer list" where
  "assign_scores a [] fas = Inr fas"
| "assign_scores a (s # ss) [] = Inl IndexError"
| "assign_scores a (s # ss) (fa # fas) =
     (case assign_scores a ss fas of
        Inl err \<Rightarrow> Inl err
      | Inr fas' \<Rightarrow>
          Inr (fa\<lparr>rerank_score := Some (- s), total_score := Some (- a * s + final_score fa)\<rparr> # fas'))"

text \<open>Sorting by \<open>total_score\<close> raises KeyError when an entry has none.\<close>

definition sort_by_total :: "final_answer list \<Rightarrow> py_error + final_answer list" where
  "sort_by_total fas =
     (if list_ex (\<lambda>fa. total_score fa = None) fas then Inl KeyError
      else Inr (sort_key (\<lambda>fa. the (total_score fa)) fas))"

definition dedup_rerank :: "'m env \<Rightarrow> string \<Rightarrow> answer list \<Rightarrow> py_error + final_answer list" where
  "dedup_rerank e target answers =
     (case for_each (dedup_item e target) (sort_key answer_score answers) ({}, [], [], []) of
        Inl err \<Rightarrow> Inl err
      | Inr (record_answers, final_answer_set, rerank_input_list, rerank_output_list) \<Rightarrow>
          (case get_rerank_scores e rerank_input_list rerank_output_list of
             None \<Rightarrow> Inl CollaboratorError
           | Some rerank_scores \<Rightarrow>
               (case assign_scores (alpha e) rerank_scores final_answer_set of
                  Inl err \<Rightarrow> Inl err
                | Inr scored \<Rightarrow>
                    (case sort_by_total scored of
                       Inl err \<Rightarrow> Inl err
                     | Inr ranked \<Rightarrow> Inr (slice_to (beam_size e) ranked)))))"

subsection \<open>get_route_result: the rank against the ground truth\<close>

record task =
  task_product :: string
  task_targets :: "string list list"
  task_depth :: int

definition ground_truth_keys :: "'m env \<Rightarrow> string list list \<Rightarrow> py_error + string set list" where
  "ground_truth_keys e tss =
     map_err (\<lambda>ts. case map_err (inchikey14 e) ts of Inl err \<Rightarrow> Inl err | Inr ks \<Rightarrow> Inr (set ks)) tss"

fun find_rank :: "string set list \<Rightarrow> final_answer list \<Rightarrow> nat \<Rightarrow> nat option" where
  "find_rank gts [] rank = None"
| "find_rank gts (fa # fas) rank =
     (if list_ex (\<lambda>ground_truth. ground_truth = set (answer_keys fa)) gts then Some rank
      else find_rank gts fas (Suc rank))"

text \<open>The root of the search and the state before the first round.\<close>

definition root_node :: "task \<Rightarrow> real \<Rightarrow> node" where
  "root_node t v =
     \<lparr>score = v, routes_info = [\<lparr>route = [task_product t], depth = 0\<rparr>], starting_materials = []\<rparr>"

definition initial_state :: search_state where
  "initial_state = \<lparr>answer_set = [], nxt_queue = [], beam_calls = [], origins = []\<rparr>"

definition route_search :: "decoder \<Rightarrow> 'm env \<Rightarrow> task \<Rightarrow> py_error + search_state" where
  "route_search gb e t =
     (case value_fn e (task_product t) of
        Inl err \<Rightarrow> Inl err
      | Inr v \<Rightarrow> search_loop gb e (task_depth t) [root_node t v] initial_state)"

text \<open>
  The queue and the state after \<open>n\<close> passes through the body of the \<open>while\<close> loop (fewer
  when the queue is empty before): what the loop holds at the start of round \<open>n + 1\<close>.
\<close>

fun search_rounds ::
  "decoder \<Rightarrow> 'm env \<Rightarrow> int \<Rightarrow> nat \<Rightarrow> node list \<Rightarrow> search_state \<Rightarrow> py_error + node list \<times> search_state" where
  "search_rounds gb e max_depth 0 queue st = Inr (queue, st)"
| "search_rounds gb e max_depth (Suc n) queue st =
     (if length queue = 0 then Inr (queue, st)
      else
        (case next_round gb e max_depth queue st of
           Inl err \<Rightarrow> Inl err
         | Inr (queue', st') \<Rightarrow> search_rounds gb e max_depth n queue' st'))"

definition get_route_result_with :: "decoder \<Rightarrow> 'm env \<Rightarrow> task \<Rightarrow> py_error + int \<times> nat option" where
  "get_route_result_with gb e t =
     (case route_search gb e t of
        Inl err \<Rightarrow> Inl err
      | Inr st \<Rightarrow>
          (case dedup_rerank e (task_product t) (answer_set st) of
             Inl err \<Rightarrow> Inl err
           | Inr final_answer_set \<Rightarrow>
               (case ground_truth_keys e (task_targets t) of
                  Inl err \<Rightarrow> Inl err
                | Inr gts \<Rightarrow> Inr (task_depth t, find_rank gts final_answer_set 0))))"

definition get_route_result :: "'m env \<Rightarrow> task \<Rightarrow> py_error + int \<times> nat option" where
  "get_route_result e t = get_route_result_with (get_beam e) e t"

subsection \<open>A small concrete environment\<close>

text \<open>
  Two symbols (\<open>C\<close> and the end token), five molecules written as their own canonical
  strings and identity keys, two of them in stock, the length of the string as value
  estimate, a stable sort for the tensor sort.
\<close>

definition toy_probs :: "string \<Rightarrow> string \<Rightarrow> (nat \<Rightarrow> real) option" where
  "toy_probs product res = Some (\<lambda>j. if j = 0 then 1 / 10 else 1)"

definition toy_env :: "string env" where
  "toy_env = \<lparr> MolFromSmiles = (\<lambda>s. if s \<in> {''C'', ''O'', ''N'', ''CO'', ''CC''} then Some s else None),
      MolToSmiles = id, MolToInchiKey = id, RemoveHs = Some, value_model = (\<lambda>m. real (length m)),
      get_output_probs = toy_probs, argsort = sort_key fst,
      get_rerank_scores = (\<lambda>ins outs. Some (map (\<lambda>s. 0) ins)),
      ix_to_char = [0 \<mapsto> CHR ''C'', 1 \<mapsto> CHR ''$''], vocab_size = 2,
      stock_inchikeys = {''C'', ''O''}, beam_size = 2, max_length = 3, alpha = 1 / 100 \<rparr>"

text \<open>
  Two decoders given as tables, to run the search apart from the beam decoder: one that
  knows a few decompositions, one in which two routes use the same material (one of them
  twice).
\<close>

definition toy_decoder :: decoder where
  "toy_decoder mol bsize =
     Inr (take (nat bsize)
       (if mol = ''CO'' then [([''N''], 1), ([''C'', ''O''], 2), ([''CO''], 1 / 2)]
        else if mol = ''N'' then [([''CC''], 1 / 4), ([''N'', ''C''], 1 / 8)]
        else []))"

definition twice_decoder :: decoder where
  "twice_decoder mol bsize =
     Inr (take (nat bsize)
       (if mol = ''CO'' then [([''C''], 1), ([''N'', ''C''], 1)]
        else if mol = ''N'' then [([''C''], 1 / 4)]
        else []))"

definition dead_task :: task where
  "dead_task = \<lparr>task_product = ''N'', task_targets = [[''C'']], task_depth = 0\<rparr>"

definition toy_task :: task where
  "toy_task = \<lparr>task_product = ''CO'', task_targets = [[''C'', ''O'']], task_depth = 1\<rparr>"

section \<open>Properties of the beam decoder\<close>

lemma log10_tenth: "log 10 (1 / 10) = - 1"
  by (simp add: log_divide)

lemma pack_roundtrip_iff:
  "(\<forall>i j. j < V \<longrightarrow> beam_index (pack_index i j) = i \<and> symbol_index (pack_index i j) = j) \<longleftrightarrow> V \<le> 100"
proof
  assume h: "\<forall>i j. j < V \<longrightarrow> beam_index (pack_index i j) = i \<and> symbol_index (pack_index i j) = j"
  show "V \<le> 100"
  proof (rule ccontr)
    assume "\<not> V \<le> 100"
    then have "(100::nat) < V" by simp
    with h have "symbol_index (pack_index 0 100) = 100" by blast
    then show False by (simp add: symbol_index_def pack_index_def)
  qed
next
  assume "V \<le> 100"
  then show "\<forall>i j. j < V \<longrightarrow> beam_index (pack_index i j) = i \<and> symbol_index (pack_index i j) = j"
    by (auto simp: beam_index_def symbol_index_def pack_index_def)
qed

lemma later_rows_provenance:
  "later_rows e product ls scs k = Inr rows \<Longrightarrow> r \<in> set rows \<Longrightarrow>
   \<exists>i<length ls. \<exists>j<vocab_size e. \<exists>prob. i < length scs \<and> get_output_probs e product (ls ! i) = Some prob
      \<and> fst r = - log 10 (prob j) + scs ! i \<and> snd r = pack_index (k + i) j"
proof (induction ls arbitrary: scs k rows)
  case Nil
  then show ?case by simp
next
  case (Cons l ls)
  from Cons.prems(1) obtain prob sc scs' rs where
    p: "get_output_probs e product l = Some prob" and s: "scs = sc # scs'"
    and rec: "later_rows e product ls scs' (Suc k) = Inr rs"
    and rows: "rows = line_rows prob (vocab_size e) sc k @ rs"
    by (auto split: option.splits list.splits sum.splits)
  from Cons.prems(2) rows consider "r \<in> set (line_rows prob (vocab_size e) sc k)" | "r \<in> set rs" by auto
  then show ?case
  proof cases
    case 1
    then obtain j where "j < vocab_size e" "r = (- log 10 (prob j) + sc, pack_index k j)"
      by (auto simp: line_rows_def)
    with p s show ?thesis by (intro exI[of _ 0]) auto
  next
    case 2
    from Cons.IH[OF rec 2] obtain i j prob' where
      "i < length ls" "j < vocab_size e" "i < length scs'" "get_output_probs e product (ls ! i) = Some prob'"
      "fst r = - log 10 (prob' j) + scs' ! i" "snd r = pack_index (Suc k + i) j" by blast
    with s show ?thesis by (intro exI[of _ "Suc i"]) auto
  qed
qed

lemma select_rows_provenance:
  "select_rows e lines ranked is (fb, os, nb, ns) = Inr (fb', os', nb', ns') \<Longrightarrow> length nb = length ns \<Longrightarrow>
   \<exists>nf nbs nss. fb' = fb @ nf \<and> nb' = nb @ nbs \<and> ns' = ns @ nss \<and> length nbs = length nss \<and>
     (\<forall>c \<in> set nf \<union> set (zip nbs nss). \<exists>r \<in> set ranked. \<exists>ch. ix_to_char e (symbol_index (snd r)) = Some ch
         \<and> beam_index (snd r) < length lines \<and> fst c = lines ! beam_index (snd r) @ [ch] \<and> snd c = fst r)"
proof (induction "is" arbitrary: fb os nb ns)
  case Nil
  then show ?case by simp
next
  case (Cons i rest)
  from Cons.prems(1) have inb: "i < length ranked" by (auto split: if_splits)
  with Cons.prems(1) obtain ch where ch: "ix_to_char e (symbol_index (snd (ranked ! i))) = Some ch"
    by (auto split: option.splits)
  with Cons.prems(1) inb have bi: "beam_index (snd (ranked ! i)) < length lines"
    by (auto split: if_splits)
  let ?s = "lines ! beam_index (snd (ranked ! i)) @ [ch]"
  have mem: "ranked ! i \<in> set ranked" using inb by simp
  show ?case
  proof (cases "ch = CHR ''$''")
    case True
    let ?fb = "if ?s \<noteq> ''$'' then fb @ [(?s, fst (ranked ! i))] else fb"
    from Cons.prems(1) inb ch bi True
    have rec: "select_rows e lines ranked rest (?fb, os - 1, nb, ns) = Inr (fb', os', nb', ns')"
      by (auto split: if_splits)
    from Cons.IH[OF rec Cons.prems(2)] obtain nf nbs nss where
      a: "fb' = ?fb @ nf" "nb' = nb @ nbs" "ns' = ns @ nss" "length nbs = length nss"
      and b: "\<forall>c \<in> set nf \<union> set (zip nbs nss). \<exists>r \<in> set ranked. \<exists>ch. ix_to_char e (symbol_index (snd r)) = Some ch
         \<and> beam_index (snd r) < length lines \<and> fst c = lines ! beam_index (snd r) @ [ch] \<and> snd c = fst r"
      by blast
    let ?nf = "(if ?s \<noteq> ''$'' then [(?s, fst (ranked ! i))] else []) @ nf"
    have "fb' = fb @ ?nf" using a(1) by simp
    moreover have "\<forall>c \<in> set ?nf \<union> set (zip nbs nss). \<exists>r \<in> set ranked. \<exists>ch. ix_to_char e (symbol_index (snd r)) = Some ch
         \<and> beam_index (snd r) < length lines \<and> fst c = lines ! beam_index (snd r) @ [ch] \<and> snd c = fst r"
      using b mem ch bi by (auto split: if_splits)
    ultimately show ?thesis using a(2-4) by blast
  next
    case False
    from Cons.prems(1) inb ch bi False
    have rec: "select_rows e lines ranked rest (fb, os, nb @ [?s], ns @ [fst (ranked ! i)]) = Inr (fb', os', nb', ns')"
      by simp
    have len: "length (nb @ [?s]) = length (ns @ [fst (ranked ! i)])" using Cons.prems(2) by simp
    from Cons.IH[OF rec len] obtain nf nbs nss where
      a: "fb' = fb @ nf" "nb' = (nb @ [?s]) @ nbs" "ns' = (ns @ [fst (ranked ! i)]) @ nss" "length nbs = length nss"
      and b: "\<forall>c \<in> set nf \<union> set (zip nbs nss). \<exists>r \<in> set ranked. \<exists>ch. ix_to_char e (symbol_index (snd r)) = Some ch
         \<and> beam_index (snd r) < length lines \<and> fst c = lines ! beam_index (snd r) @ [ch] \<and> snd c = fst r"
      by blast
    have "nb' = nb @ (?s # nbs)" "ns' = ns @ (fst (ranked ! i) # nss)" "length (?s # nbs) = length (fst (ranked ! i) # nss)"
      using a by simp_all
    moreover have "\<forall>c \<in> set nf \<union> set (zip (?s # nbs) (fst (ranked ! i) # nss)). \<exists>r \<in> set ranked. \<exists>ch. ix_to_char e (symbol_index (snd r)) = Some ch
         \<and> beam_index (snd r) < length lines \<and> fst c = lines ! beam_index (snd r) @ [ch] \<and> snd c = fst r"
      using b mem ch bi by auto
    ultimately show ?thesis using a(1) by blast
  qed
qed

lemma later_step_extends:
  assumes V: "vocab_size e \<le> 100"
    and rows: "later_rows e product lines scores 0 = Inr result"
    and perm: "set (argsort e result) \<subseteq> set result"
    and sel: "select_rows e lines (argsort e result) is (fb, os, [], []) = Inr (fb', os', nb, ns)"
    and c: "c \<in> set (drop (length fb) fb') \<union> set (zip nb ns)"
  shows "\<exists>i<length lines. \<exists>j<vocab_size e. \<exists>prob ch.
           get_output_probs e product (lines ! i) = Some prob \<and> ix_to_char e j = Some ch \<and>
           fst c = lines ! i @ [ch] \<and> snd c = - log 10 (prob j) + scores ! i"
proof -
  from select_rows_provenance[OF sel] obtain nf nbs nss where
    a: "fb' = fb @ nf" "nb = nbs" "ns = nss"
    and b: "\<forall>c \<in> set nf \<union> set (zip nbs nss). \<exists>r \<in> set (argsort e result). \<exists>ch. ix_to_char e (symbol_index (snd r)) = Some ch
         \<and> beam_index (snd r) < length lines \<and> fst c = lines ! beam_index (snd r) @ [ch] \<and> snd c = fst r"
    by auto
  from c a have "c \<in> set nf \<union> set (zip nbs nss)" by simp
  with b obtain r ch where r: "r \<in> set (argsort e result)" "ix_to_char e (symbol_index (snd r)) = Some ch"
    "fst c = lines ! beam_index (snd r) @ [ch]" "snd c = fst r" by blast
  from r(1) perm have "r \<in> set result" by auto
  from later_rows_provenance[OF rows this] obtain i j prob where
    ij: "i < length lines" "j < vocab_size e" "get_output_probs e product (lines ! i) = Some prob"
    "fst r = - log 10 (prob j) + scores ! i" "snd r = pack_index (0 + i) j" by blast
  from ij(2) V have "j < 100" by simp
  then have "beam_index (snd r) = i" "symbol_index (snd r) = j"
    using ij(5) by (simp_all add: beam_index_def symbol_index_def pack_index_def)
  with r ij show ?thesis by auto
qed

lemma first_step_extends:
  assumes V: "vocab_size e \<le> 100"
    and rows: "build_result e product 0 (replicate n []) scores = Inr result"
    and perm: "set (argsort e result) \<subseteq> set result"
    and sel: "select_rows e (replicate n []) (argsort e result) is (fb, os, [], []) = Inr (fb', os', nb, ns)"
    and c: "c \<in> set (drop (length fb) fb') \<union> set (zip nb ns)"
  shows "\<exists>j<vocab_size e. \<exists>prob ch.
           get_output_probs e product [] = Some prob \<and> ix_to_char e j = Some ch \<and>
           fst c = [] @ [ch] \<and> snd c = - log 10 (prob j)"
proof -
  from select_rows_provenance[OF sel] obtain nf nbs nss where
    a: "fb' = fb @ nf" "nb = nbs" "ns = nss"
    and b: "\<forall>c \<in> set nf \<union> set (zip nbs nss). \<exists>r \<in> set (argsort e result). \<exists>ch. ix_to_char e (symbol_index (snd r)) = Some ch
         \<and> beam_index (snd r) < length (replicate n ([]::string)) \<and> fst c = replicate n [] ! beam_index (snd r) @ [ch] \<and> snd c = fst r"
    by auto
  from c a have "c \<in> set nf \<union> set (zip nbs nss)" by simp
  then have "c \<in> set nf \<union> set (zip nbs nss)" .
  from bspec[OF b this] obtain r ch where r: "r \<in> set (argsort e result)" "ix_to_char e (symbol_index (snd r)) = Some ch"
    "beam_index (snd r) < length (replicate n ([]::string))" "fst c = replicate n [] ! beam_index (snd r) @ [ch]" "snd c = fst r"
    by blast
  from r(1) perm have "r \<in> set result" by auto
  with rows obtain prob j where p: "get_output_probs e product [] = Some prob" "j < vocab_size e"
    "r = (- log 10 (prob j), j)"
    by (auto simp: build_result_def first_rows_def split: option.splits)
  from p(2) V have "symbol_index (snd r) = j" using p(3) by (simp add: symbol_index_def)
  moreover have "replicate n [] ! beam_index (snd r) = ([]::string)" using r(3) by simp
  ultimately show ?thesis using r p by auto
qed

text \<open>
  C10. Packing (beam index \<open>i\<close>, symbol index \<open>j\<close>) as \<open>i * 100 + j\<close> and reading it back
  with \<open>div 100\<close> and \<open>mod 100\<close> gives back \<open>(i, j)\<close> for all \<open>i\<close> and all \<open>j\<close> below the
  vocabulary size exactly when the vocabulary size is at most 100. When it is, every string
  that the selection loop of a generation step produces (finished or live) is the partial
  string whose row was scored, extended by the symbol of that row, with that row's score: at
  step 0 the empty string, at a later step the live string \<open>lines ! i\<close> with its score
  \<open>scores ! i\<close>. The sort of the rows is only required to return rows of its input.
\<close>

theorem packed_index_roundtrip:
  "((\<forall>i j. j < V \<longrightarrow> beam_index (pack_index i j) = i \<and> symbol_index (pack_index i j) = j) \<longleftrightarrow> V \<le> 100)
   \<and> (vocab_size e \<le> 100 \<longrightarrow>
        build_result e product step lines scores = Inr result \<longrightarrow>
        (step = 0 \<longrightarrow> lines = replicate (length lines) []) \<longrightarrow>
        set (argsort e result) \<subseteq> set result \<longrightarrow>
        select_rows e lines (argsort e result) is (fb, os, [], []) = Inr (fb', os', nb, ns) \<longrightarrow>
        (\<forall>c \<in> set (drop (length fb) fb') \<union> set (zip nb ns).
           \<exists>l base. \<exists>j<vocab_size e. \<exists>prob ch.
             (if step = 0 then l = [] \<and> base = 0 else \<exists>i<length lines. l = lines ! i \<and> base = scores ! i) \<and>
             get_output_probs e product l = Some prob \<and> ix_to_char e j = Some ch \<and>
             fst c = l @ [ch] \<and> snd c = - log 10 (prob j) + base))"
proof (intro conjI impI ballI)
  show "(\<forall>i j. j < V \<longrightarrow> beam_index (pack_index i j) = i \<and> symbol_index (pack_index i j) = j) \<longleftrightarrow> V \<le> 100"
    by (rule pack_roundtrip_iff)
next
  fix c
  assume V: "vocab_size e \<le> 100"
    and rows: "build_result e product step lines scores = Inr result"
    and init: "step = 0 \<longrightarrow> lines = replicate (length lines) []"
    and perm: "set (argsort e result) \<subseteq> set result"
    and sel: "select_rows e lines (argsort e result) is (fb, os, [], []) = Inr (fb', os', nb, ns)"
    and c: "c \<in> set (drop (length fb) fb') \<union> set (zip nb ns)"
  show "\<exists>l base. \<exists>j<vocab_size e. \<exists>prob ch.
             (if step = 0 then l = [] \<and> base = 0 else \<exists>i<length lines. l = lines ! i \<and> base = scores ! i) \<and>
             get_output_probs e product l = Some prob \<and> ix_to_char e j = Some ch \<and>
             fst c = l @ [ch] \<and> snd c = - log 10 (prob j) + base"
  proof (cases "step = 0")
    case True
    with init obtain n where n: "lines = replicate n []" by blast
    from first_step_extends[OF V rows[unfolded True n] perm sel[unfolded n] c]
    obtain j prob ch where "j < vocab_size e" "get_output_probs e product [] = Some prob" "ix_to_char e j = Some ch"
      "fst c = [] @ [ch]" "snd c = - log 10 (prob j)" by blast
    with True show ?thesis by (intro exI[of _ "[]"] exI[of _ 0] exI[of _ j]) auto
  next
    case False
    with rows have rows': "later_rows e product lines scores 0 = Inr result" by (simp add: build_result_def)
    from later_step_extends[OF V rows' perm sel c]
    obtain i j prob ch where "i < length lines" "j < vocab_size e" "get_output_probs e product (lines ! i) = Some prob"
      "ix_to_char e j = Some ch" "fst c = lines ! i @ [ch]" "snd c = - log 10 (prob j) + scores ! i" by blast
    with False show ?thesis by (intro exI[of _ "lines ! i"] exI[of _ "scores ! i"] exI[of _ j]) auto
  qed
qed

lemma toy_build_result: "build_result toy_env ''CO'' 1 [''C'', ''O''] [0, 1] = Inr [(1, 0), (0, 1), (2, 100), (1, 101)]"
  by (simp add: build_result_def toy_env_def toy_probs_def line_rows_def pack_index_def log10_tenth upt_rec)

lemma toy_argsort: "argsort toy_env [(1, 0), (0, 1), (2, 100), (1, 101)] = [(0, 1), (1, 0), (1, 101), (2, 100)]"
  by (simp add: toy_env_def)

lemma toy_select_rows: "select_rows toy_env [''C'', ''O''] [(0, 1), (1, 0), (1, 101), (2, 100)] [0..<2] ([], 2, [], [])
   = Inr ([(''C$'', 0)], 1, [''CC''], [1])"
  by (simp add: toy_env_def symbol_index_def beam_index_def upt_rec)

theorem packed_index_roundtrip_witness:
  "vocab_size toy_env \<le> 100
   \<and> build_result toy_env ''CO'' 1 [''C'', ''O''] [0, 1] = Inr [(1, 0), (0, 1), (2, 100), (1, 101)]
   \<and> set (argsort toy_env [(1, 0), (0, 1), (2, 100), (1, 101)]) \<subseteq> set [(1, 0), (0, 1), (2, 100), (1, 101)]
   \<and> select_rows toy_env [''C'', ''O''] (argsort toy_env [(1, 0), (0, 1), (2, 100), (1, 101)]) [0..<2] ([], 2, [], [])
        = Inr ([(''C$'', 0)], 1, [''CC''], [1])
   \<and> (\<exists>l base. \<exists>j<vocab_size toy_env. \<exists>prob ch.
         (\<exists>i<length [''C'', ''O'']. l = [''C'', ''O''] ! i \<and> base = [0, 1] ! i) \<and>
         get_output_probs toy_env ''CO'' l = Some prob \<and> ix_to_char toy_env j = Some ch \<and>
         ''C$'' = l @ [ch] \<and> 0 = - log 10 (prob j) + base)
   \<and> (\<exists>l base. \<exists>j<vocab_size toy_env. \<exists>prob ch.
         (\<exists>i<length [''C'', ''O'']. l = [''C'', ''O''] ! i \<and> base = [0, 1] ! i) \<and>
         get_output_probs toy_env ''CO'' l = Some prob \<and> ix_to_char toy_env j = Some ch \<and>
         ''CC'' = l @ [ch] \<and> 1 = - log 10 (prob j) + base)"
proof -
  let ?rows = "[(1, 0), (0, 1), (2, 100), (1, 101)] :: row list"
  let ?P = "\<lambda>c :: string \<times> real. \<exists>l base. \<exists>j<vocab_size toy_env. \<exists>prob ch.
             (if (1::nat) = 0 then l = [] \<and> base = 0
              else \<exists>i<length [''C'', ''O'']. l = [''C'', ''O''] ! i \<and> base = [0, 1] ! i) \<and>
             get_output_probs toy_env ''CO'' l = Some prob \<and> ix_to_char toy_env j = Some ch \<and>
             fst c = l @ [ch] \<and> snd c = - log 10 (prob j) + base"
  have h1: "vocab_size toy_env \<le> 100" by (simp add: toy_env_def)
  have h3: "set (argsort toy_env ?rows) \<subseteq> set ?rows"
    unfolding toy_argsort by simp
  have h4: "select_rows toy_env [''C'', ''O''] (argsort toy_env ?rows) [0..<2] ([], 2, [], [])
        = Inr ([(''C$'', 0)], 1, [''CC''], [1])"
    unfolding toy_argsort by (rule toy_select_rows)
  have h0: "(1::nat) = 0 \<longrightarrow> [''C'', ''O''] = replicate (length [''C'', ''O'']) []" by simp
  from packed_index_roundtrip[of 100 toy_env "''CO''" 1 "[''C'', ''O'']" "[0, 1]" ?rows "[0..<2]" "[]" 2 "[(''C$'', 0)]" 1 "[''CC'']" "[1]"]
    h1 toy_build_result h0 h3 h4
  have all: "\<forall>c \<in> set (drop (length ([]::(string \<times> real) list)) [(''C$'', 0)]) \<union> set (zip [''CC''] [1]). ?P c"
    by blast
  have a: "?P (''C$'', 0)" by (rule bspec[OF all]) simp
  have b: "?P (''CC'', 1)" by (rule bspec[OF all]) simp
  from a have a': "\<exists>l base. \<exists>j<vocab_size toy_env. \<exists>prob ch.
         (\<exists>i<length [''C'', ''O'']. l = [''C'', ''O''] ! i \<and> base = [0, 1] ! i) \<and>
         get_output_probs toy_env ''CO'' l = Some prob \<and> ix_to_char toy_env j = Some ch \<and>
         ''C$'' = l @ [ch] \<and> 0 = - log 10 (prob j) + base"
    by (simp only: fst_conv snd_conv one_neq_zero if_False)
  from b have b': "\<exists>l base. \<exists>j<vocab_size toy_env. \<exists>prob ch.
         (\<exists>i<length [''C'', ''O'']. l = [''C'', ''O''] ! i \<and> base = [0, 1] ! i) \<and>
         get_output_probs toy_env ''CO'' l = Some prob \<and> ix_to_char toy_env j = Some ch \<and>
         ''CC'' = l @ [ch] \<and> 1 = - log 10 (prob j) + base"
    by (simp only: fst_conv snd_conv one_neq_zero if_False)
  from h1 toy_build_result h3 h4 a' b' show ?thesis by (intro conjI)
qed

section \<open>Properties of one expansion\<close>

lemma set_sort_strings: "set (sort (xs :: string list)) = set xs"
  by simp

lemma check_reactants_all_material:
  "\<forall>r \<in> set rs. check_reactant_is_material e r = Inr True \<Longrightarrow> check_reactants_are_material e rs = Inr True"
  by (induction rs) (auto simp: check_reactant_is_material_def split: sum.splits)

lemma check_reactants_defined:
  "\<forall>r \<in> set rs. \<exists>b. check_reactant_is_material e r = Inr b \<Longrightarrow>
   check_reactants_are_material e rs = Inr (list_all (\<lambda>r. check_reactant_is_material e r = Inr True) rs)"
  by (induction rs) (auto simp: check_reactant_is_material_def split: sum.splits)

lemma value_fn_defined:
  "check_reactant_is_material e r = Inr b \<Longrightarrow> \<exists>v. value_fn e r = Inr v"
  by (auto simp: check_reactant_is_material_def inchikey14_def value_fn_def split: sum.splits option.splits)

lemma partition_loop_result:
  assumes "\<forall>r \<in> set rs. \<exists>b. check_reactant_is_material e r = Inr b"
  shows "for_each (partition_reactant e first_route d) rs (c, ir, sm) =
     Inr (c + sum_list (map (\<lambda>r. projr (value_fn e r)) (filter (\<lambda>r. check_reactant_is_material e r \<noteq> Inr True) rs)),
          rev (map (\<lambda>r. \<lparr>route = first_route @ [r], depth = d + 1\<rparr>)
                 (filter (\<lambda>r. check_reactant_is_material e r \<noteq> Inr True) rs)) @ ir,
          sm @ filter (\<lambda>r. check_reactant_is_material e r = Inr True) rs)"
  using assms
proof (induction rs arbitrary: c ir sm)
  case Nil
  then show ?case by simp
next
  case (Cons r rs)
  from Cons.prems obtain b where b: "check_reactant_is_material e r = Inr b" by auto
  from value_fn_defined[OF b] obtain v where v: "value_fn e r = Inr v" by blast
  have rest: "\<forall>r \<in> set rs. \<exists>b. check_reactant_is_material e r = Inr b" using Cons.prems by simp
  show ?case
  proof (cases b)
    case True
    with b have "partition_reactant e first_route d r (c, ir, sm) = Inr (c, ir, sm @ [r])"
      by (simp add: partition_reactant_def)
    then show ?thesis using Cons.IH[OF rest, of c ir "sm @ [r]"] b True by simp
  next
    case False
    with b v have "partition_reactant e first_route d r (c, ir, sm) =
        Inr (c + v, \<lparr>route = first_route @ [r], depth = d + 1\<rparr> # ir, sm)"
      by (simp add: partition_reactant_def)
    then show ?thesis
      using Cons.IH[OF rest, of "c + v" "\<lparr>route = first_route @ [r], depth = d + 1\<rparr> # ir" sm] b v False
      by (simp add: add.assoc)
  qed
qed

text \<open>
  C5. A node with exactly one pending expansion \<open>h\<close> is expanded with a candidate all of
  whose reactants are in stock, and the value estimate of the expanded molecule is \<open>v\<close>:
  the expansion appends to the answer set one route with score
  \<open>score + step cost - v\<close> and with the node's materials followed by the candidate's
  reactants (sorted), that is their union as a set; the next queue is unchanged.
\<close>

theorem terminal_expansion_emits:
  assumes "routes_info item = [h]"
    and "\<forall>r \<in> set (fst sol). check_reactant_is_material e r = Inr True"
    and "value_fn e (last (route h)) = Inr v"
  shows "\<exists>st'. expand_solution e item (route h) (depth h) (last (route h)) sol st = Inr st'
      \<and> answer_set st' = answer_set st @
            [\<lparr>answer_score = score item + snd sol - v,
              answer_materials = starting_materials item @ sort (fst sol)\<rparr>]
      \<and> set (answer_materials (last (answer_set st'))) = set (starting_materials item) \<union> set (fst sol)
      \<and> nxt_queue st' = nxt_queue st"
proof -
  have "check_reactants_are_material e (sort (fst sol)) = Inr True"
    using assms(2) by (intro check_reactants_all_material) simp
  with assms(1,3) show ?thesis
    by (simp add: expand_solution_def Let_def)
qed

text \<open>
  C6. A node with pending list \<open>h # rest\<close> is expanded with a candidate whose reactants all
  have an identity key, in the case that is not terminal (some reactant is not in stock, or
  \<open>rest\<close> is not empty): one child is appended to the next queue. Its materials are the
  node's followed by the reactants in stock; its pending list is \<open>rest\<close> with one new entry
  per reactant not in stock put in front of it (each new entry pushed to the front in turn,
  path \<open>route h @ [reactant]\<close>, depth \<open>depth h + 1\<close>); its score is the node's score plus the
  step cost plus the value estimates of the reactants not in stock minus the value estimate
  \<open>v\<close> of the expanded molecule. The answer set is unchanged.
\<close>

theorem nonterminal_expansion_child:
  assumes "routes_info item = h # rest"
    and "\<forall>r \<in> set (fst sol). \<exists>b. check_reactant_is_material e r = Inr b"
    and "\<not> ((\<forall>r \<in> set (fst sol). check_reactant_is_material e r = Inr True) \<and> rest = [])"
    and "value_fn e (last (route h)) = Inr v"
  shows "\<exists>st'. expand_solution e item (route h) (depth h) (last (route h)) sol st = Inr st'
      \<and> nxt_queue st' = nxt_queue st @
           [\<lparr>score = score item + snd sol
                 + sum_list (map (\<lambda>r. projr (value_fn e r))
                     (filter (\<lambda>r. check_reactant_is_material e r \<noteq> Inr True) (sort (fst sol))))
                 - v,
             routes_info =
               rev (map (\<lambda>r. \<lparr>route = route h @ [r], depth = depth h + 1\<rparr>)
                     (filter (\<lambda>r. check_reactant_is_material e r \<noteq> Inr True) (sort (fst sol)))) @ rest,
             starting_materials =
               starting_materials item @
               filter (\<lambda>r. check_reactant_is_material e r = Inr True) (sort (fst sol))\<rparr>]
      \<and> answer_set st' = answer_set st"
proof -
  have d: "\<forall>r \<in> set (sort (fst sol)). \<exists>b. check_reactant_is_material e r = Inr b"
    using assms(2) by simp
  have c: "check_reactants_are_material e (sort (fst sol)) =
      Inr (list_all (\<lambda>r. check_reactant_is_material e r = Inr True) (sort (fst sol)))"
    by (rule check_reactants_defined[OF d])
  have nt: "\<not> (list_all (\<lambda>r. check_reactant_is_material e r = Inr True) (sort (fst sol)) \<and> length rest = 0)"
    using assms(3) by (simp add: list_all_iff)
  show ?thesis
    using assms(1,4) c nt partition_loop_result[OF d, of "route h" "depth h" 0 rest "starting_materials item"]
    by (simp add: expand_solution_def Let_def)
qed

lemma toy_material [simp]:
  "check_reactant_is_material toy_env ''C'' = Inr True"
  "check_reactant_is_material toy_env ''O'' = Inr True"
  "check_reactant_is_material toy_env ''N'' = Inr False"
  "check_reactant_is_material toy_env ''CO'' = Inr False"
  "check_reactant_is_material toy_env ''CC'' = Inr False"
  by (simp_all add: check_reactant_is_material_def inchikey14_def toy_env_def)

lemma toy_value [simp]:
  "value_fn toy_env ''C'' = Inr 1"
  "value_fn toy_env ''O'' = Inr 1"
  "value_fn toy_env ''N'' = Inr 1"
  "value_fn toy_env ''CO'' = Inr 2"
  "value_fn toy_env ''CC'' = Inr 2"
  by (simp_all add: value_fn_def toy_env_def)

theorem terminal_expansion_emits_witness:
  "routes_info \<lparr>score = 2, routes_info = [\<lparr>route = [''CO''], depth = 0\<rparr>], starting_materials = [''C'']\<rparr>
     = [\<lparr>route = [''CO''], depth = 0\<rparr>]
   \<and> check_reactant_is_material toy_env ''O'' = Inr True
   \<and> check_reactant_is_material toy_env ''C'' = Inr True
   \<and> value_fn toy_env (last [''CO'']) = Inr 2
   \<and> (\<exists>st'. expand_solution toy_env
           \<lparr>score = 2, routes_info = [\<lparr>route = [''CO''], depth = 0\<rparr>], starting_materials = [''C'']\<rparr>
           [''CO''] 0 ''CO'' ([''O'', ''C''], 1 / 2)
           \<lparr>answer_set = [], nxt_queue = [], beam_calls = [], origins = []\<rparr> = Inr st'
        \<and> answer_set st' = [\<lparr>answer_score = 1 / 2, answer_materials = [''C'', ''C'', ''O'']\<rparr>]
        \<and> set (answer_materials (last (answer_set st'))) = {''C'', ''O''}
        \<and> nxt_queue st' = [])"
proof -
  let ?h = "\<lparr>route = [''CO''], depth = 0\<rparr>"
  let ?item = "\<lparr>score = 2, routes_info = [?h], starting_materials = [''C'']\<rparr>"
  let ?st = "\<lparr>answer_set = [], nxt_queue = [], beam_calls = [], origins = []\<rparr>"
  have h1: "routes_info ?item = [?h]" by simp
  have h2: "\<forall>r \<in> set (fst ([''O'', ''C''], 1 / 2 :: real)). check_reactant_is_material toy_env r = Inr True"
    by simp
  have h3: "value_fn toy_env (last (route ?h)) = Inr 2" by simp
  from terminal_expansion_emits[OF h1 h2 h3, of ?st]
  show ?thesis by auto
qed

theorem nonterminal_expansion_child_witness:
  "routes_info \<lparr>score = 2, routes_info = [\<lparr>route = [''CO''], depth = 0\<rparr>, \<lparr>route = [''O''], depth = 1\<rparr>], starting_materials = [''C'']\<rparr>
     = [\<lparr>route = [''CO''], depth = 0\<rparr>, \<lparr>route = [''O''], depth = 1\<rparr>]
   \<and> check_reactant_is_material toy_env ''O'' = Inr True
   \<and> check_reactant_is_material toy_env ''CC'' = Inr False
   \<and> value_fn toy_env (last [''CO'']) = Inr 2
   \<and> (\<exists>st'. expand_solution toy_env
           \<lparr>score = 2, routes_info = [\<lparr>route = [''CO''], depth = 0\<rparr>, \<lparr>route = [''O''], depth = 1\<rparr>], starting_materials = [''C'']\<rparr>
           [''CO''] 0 ''CO'' ([''O'', ''CC''], 1 / 2)
           \<lparr>answer_set = [], nxt_queue = [], beam_calls = [], origins = []\<rparr> = Inr st'
        \<and> nxt_queue st' =
             [\<lparr>score = 5 / 2,
               routes_info = [\<lparr>route = [''CO'', ''CC''], depth = 1\<rparr>, \<lparr>route = [''O''], depth = 1\<rparr>],
               starting_materials = [''C'', ''O'']\<rparr>]
        \<and> answer_set st' = [])"
proof -
  let ?h = "\<lparr>route = [''CO''], depth = 0\<rparr>"
  let ?rest = "[\<lparr>route = [''O''], depth = 1\<rparr>]"
  let ?item = "\<lparr>score = 2, routes_info = ?h # ?rest, starting_materials = [''C'']\<rparr>"
  let ?st = "\<lparr>answer_set = [], nxt_queue = [], beam_calls = [], origins = []\<rparr>"
  have h1: "routes_info ?item = ?h # ?rest" by simp
  have h2: "\<forall>r \<in> set (fst ([''O'', ''CC''], 1 / 2 :: real)). \<exists>b. check_reactant_is_material toy_env r = Inr b"
    by auto
  have h3: "\<not> ((\<forall>r \<in> set (fst ([''O'', ''CC''], 1 / 2 :: real)). check_reactant_is_material toy_env r = Inr True) \<and> ?rest = [])"
    by simp
  have h4: "value_fn toy_env (last (route ?h)) = Inr 2" by simp
  from nonterminal_expansion_child[OF h1 h2 h3 h4, of ?st]
  show ?thesis by auto
qed

section \<open>Properties of the search loop\<close>

lemma slice_to_nonneg: "0 \<le> n \<Longrightarrow> slice_to n xs = take (min (nat n) (length xs)) xs"
  by (simp add: slice_to_def min_def)

lemma length_slice_to: "0 \<le> n \<Longrightarrow> length (slice_to n xs) \<le> nat n"
  by (simp add: slice_to_def)

lemma next_round_queue:
  assumes "next_round gb e max_depth queue st = Inr (queue', st')"
  shows "queue' = slice_to (beam_size e) (sort_key score (nxt_queue st'))"
  using assms by (auto simp: next_round_def split: sum.splits)

lemma sorted_take_below_rest:
  fixes f :: "'a \<Rightarrow> real"
  assumes "sorted (map f xs)"
  shows "\<forall>a \<in> set (take k xs). \<forall>b \<in> set (drop k xs). f a \<le> f b"
proof -
  have "sorted (map f (take k xs) @ map f (drop k xs))"
    using assms by (simp flip: map_append)
  then show ?thesis by (auto simp: sorted_append)
qed

lemma pool_minus_taken:
  "mset pool - mset (take k (sort_key f pool)) = mset (drop k (sort_key f pool))"
proof -
  have "mset pool = mset (take k (sort_key f pool)) + mset (drop k (sort_key f pool))"
    by (metis append_take_drop_id mset_append mset_sort)
  then show ?thesis by simp
qed

lemma search_rounds_bounded:
  assumes "0 \<le> beam_size e"
    and "search_rounds gb e max_depth n queue st = Inr (queue', st')"
    and "length queue \<le> nat (beam_size e)"
  shows "length queue' \<le> nat (beam_size e)"
  using assms(2,3)
proof (induction n arbitrary: queue st)
  case 0
  then show ?case by simp
next
  case (Suc n)
  show ?case
  proof (cases "length queue = 0")
    case True
    with Suc.prems show ?thesis by simp
  next
    case False
    with Suc.prems(1) obtain q1 s1 where
      nr: "next_round gb e max_depth queue st = Inr (q1, s1)"
      and rec: "search_rounds gb e max_depth n q1 s1 = Inr (queue', st')"
      by (auto split: sum.splits)
    have "length q1 \<le> nat (beam_size e)"
      unfolding next_round_queue[OF nr] by (rule length_slice_to[OF assms(1)])
    from Suc.IH[OF rec this] show ?thesis .
  qed
qed

text \<open>
  C7. For a beam width \<open>B \<ge> 1\<close>: the queue that a round hands to the next one is the first
  \<open>min B (pool size)\<close> nodes of the round's candidate pool sorted ascending by score (a
  stable sort); it is sorted by score, and none of its nodes has a higher score than a node
  of the pool left out. Hence, starting from the root, the queue at the start of every
  round holds at most \<open>B\<close> nodes.
\<close>

theorem beam_pruned_queue:
  assumes "1 \<le> beam_size e"
  shows "(next_round gb e max_depth queue st = Inr (queue', st') \<longrightarrow>
            queue' = take (min (nat (beam_size e)) (length (nxt_queue st'))) (sort_key score (nxt_queue st'))
          \<and> sorted (map score queue')
          \<and> (\<forall>a \<in> set queue'. \<forall>b \<in># mset (nxt_queue st') - mset queue'. score a \<le> score b))
       \<and> (search_rounds gb e (task_depth t) n [root_node t v] initial_state = Inr (queue'', st'') \<longrightarrow>
            length queue'' \<le> nat (beam_size e))"
proof (intro conjI impI)
  assume nr: "next_round gb e max_depth queue st = Inr (queue', st')"
  let ?pool = "nxt_queue st'"
  let ?k = "min (nat (beam_size e)) (length ?pool)"
  from assms have nn: "0 \<le> beam_size e" by simp
  show q: "queue' = take ?k (sort_key score ?pool)"
    using next_round_queue[OF nr] slice_to_nonneg[OF nn, of "sort_key score ?pool"] by simp
  have srt: "sorted (map score (sort_key score ?pool))" by (rule sorted_sort_key)
  show "sorted (map score queue')"
    unfolding q using srt by (simp add: take_map[symmetric] sorted_wrt_take)
  show "\<forall>a \<in> set queue'. \<forall>b \<in># mset ?pool - mset queue'. score a \<le> score b"
    unfolding q pool_minus_taken using sorted_take_below_rest[OF srt, of ?k] by simp
next
  assume r: "search_rounds gb e (task_depth t) n [root_node t v] initial_state = Inr (queue'', st'')"
  from assms have nn: "0 \<le> beam_size e" by simp
  have "length [root_node t v] \<le> nat (beam_size e)" using assms by simp
  from search_rounds_bounded[OF nn r this] show "length queue'' \<le> nat (beam_size e)" .
qed

lemma toy_next_round:
  "next_round toy_decoder toy_env 1
     [\<lparr>score = 2, routes_info = [\<lparr>route = [''CO''], depth = 0\<rparr>], starting_materials = []\<rparr>,
      \<lparr>score = 1, routes_info = [\<lparr>route = [''N''], depth = 0\<rparr>], starting_materials = []\<rparr>]
     initial_state
   = Inr ([\<lparr>score = 9 / 8, routes_info = [\<lparr>route = [''N'', ''N''], depth = 1\<rparr>], starting_materials = [''C'']\<rparr>,
           \<lparr>score = 2, routes_info = [\<lparr>route = [''CO'', ''N''], depth = 1\<rparr>], starting_materials = []\<rparr>],
          \<lparr>answer_set = [\<lparr>answer_score = 2, answer_materials = [''C'', ''O'']\<rparr>],
           nxt_queue =
             [\<lparr>score = 2, routes_info = [\<lparr>route = [''CO'', ''N''], depth = 1\<rparr>], starting_materials = []\<rparr>,
              \<lparr>score = 9 / 4, routes_info = [\<lparr>route = [''N'', ''CC''], depth = 1\<rparr>], starting_materials = []\<rparr>,
              \<lparr>score = 9 / 8, routes_info = [\<lparr>route = [''N'', ''N''], depth = 1\<rparr>], starting_materials = [''C'']\<rparr>],
           beam_calls = [([''CO''], 0), ([''N''], 0)], origins = [[''CO'']]\<rparr>)"
  by (simp add: next_round_def expand_item_def expand_solution_def partition_reactant_def Let_def
      toy_decoder_def initial_state_def slice_to_def
      check_reactant_is_material_def inchikey14_def value_fn_def toy_env_def)

lemma toy_round_one:
  "next_round toy_decoder toy_env 1 [root_node toy_task 2] initial_state
   = Inr ([\<lparr>score = 2, routes_info = [\<lparr>route = [''CO'', ''N''], depth = 1\<rparr>], starting_materials = []\<rparr>],
          \<lparr>answer_set = [\<lparr>answer_score = 2, answer_materials = [''C'', ''O'']\<rparr>],
           nxt_queue =
             [\<lparr>score = 2, routes_info = [\<lparr>route = [''CO'', ''N''], depth = 1\<rparr>], starting_materials = []\<rparr>],
           beam_calls = [([''CO''], 0)], origins = [[''CO'']]\<rparr>)"
  by (simp add: next_round_def expand_item_def expand_solution_def partition_reactant_def Let_def
      toy_decoder_def toy_task_def root_node_def initial_state_def slice_to_def
      check_reactant_is_material_def inchikey14_def value_fn_def toy_env_def)

lemma toy_task_depth: "task_depth toy_task = 1"
  by (simp add: toy_task_def)

lemma toy_first_round:
  "search_rounds toy_decoder toy_env (task_depth toy_task) 1 [root_node toy_task 2] initial_state
   = Inr ([\<lparr>score = 2, routes_info = [\<lparr>route = [''CO'', ''N''], depth = 1\<rparr>], starting_materials = []\<rparr>],
          \<lparr>answer_set = [\<lparr>answer_score = 2, answer_materials = [''C'', ''O'']\<rparr>],
           nxt_queue =
             [\<lparr>score = 2, routes_info = [\<lparr>route = [''CO'', ''N''], depth = 1\<rparr>], starting_materials = []\<rparr>],
           beam_calls = [([''CO''], 0)], origins = [[''CO'']]\<rparr>)"
  by (simp add: toy_task_depth toy_round_one)

theorem beam_pruned_queue_witness:
  "1 \<le> beam_size toy_env
   \<and> (\<exists>queue' st'.
         next_round toy_decoder toy_env 1
           [\<lparr>score = 2, routes_info = [\<lparr>route = [''CO''], depth = 0\<rparr>], starting_materials = []\<rparr>,
            \<lparr>score = 1, routes_info = [\<lparr>route = [''N''], depth = 0\<rparr>], starting_materials = []\<rparr>]
           initial_state = Inr (queue', st')
         \<and> length (nxt_queue st') = 3
         \<and> map score queue' = [9 / 8, 2]
         \<and> queue' = take (min (nat (beam_size toy_env)) (length (nxt_queue st'))) (sort_key score (nxt_queue st'))
         \<and> sorted (map score queue')
         \<and> list_all (\<lambda>a. list_all (\<lambda>b. score a \<le> score b) (drop 2 (sort_key score (nxt_queue st')))) queue')
   \<and> (\<exists>queue'' st''.
         search_rounds toy_decoder toy_env (task_depth toy_task) 1 [root_node toy_task 2] initial_state
           = Inr (queue'', st'')
         \<and> length queue'' \<le> nat (beam_size toy_env))"
proof -
  have b: "1 \<le> beam_size toy_env" by (simp add: toy_env_def)
  note bp = beam_pruned_queue[OF b]
  let ?q = "[\<lparr>score = 9 / 8, routes_info = [\<lparr>route = [''N'', ''N''], depth = 1\<rparr>], starting_materials = [''C'']\<rparr>,
           \<lparr>score = 2, routes_info = [\<lparr>route = [''CO'', ''N''], depth = 1\<rparr>], starting_materials = []\<rparr>]"
  let ?st = "\<lparr>answer_set = [\<lparr>answer_score = 2, answer_materials = [''C'', ''O'']\<rparr>],
           nxt_queue =
             [\<lparr>score = 2, routes_info = [\<lparr>route = [''CO'', ''N''], depth = 1\<rparr>], starting_materials = []\<rparr>,
              \<lparr>score = 9 / 4, routes_info = [\<lparr>route = [''N'', ''CC''], depth = 1\<rparr>], starting_materials = []\<rparr>,
              \<lparr>score = 9 / 8, routes_info = [\<lparr>route = [''N'', ''N''], depth = 1\<rparr>], starting_materials = [''C'']\<rparr>],
           beam_calls = [([''CO''], 0), ([''N''], 0)], origins = [[''CO'']]\<rparr>"
  from bp[THEN conjunct1, rule_format, OF toy_next_round]
  have a1: "?q = take (min (nat (beam_size toy_env)) (length (nxt_queue ?st))) (sort_key score (nxt_queue ?st))"
    and a2: "sorted (map score ?q)"
    by blast+
  have a3: "list_all (\<lambda>a. list_all (\<lambda>b. score a \<le> score b) (drop 2 (sort_key score (nxt_queue ?st)))) ?q"
    by simp
  have first: "\<exists>queue' st'.
         next_round toy_decoder toy_env 1
           [\<lparr>score = 2, routes_info = [\<lparr>route = [''CO''], depth = 0\<rparr>], starting_materials = []\<rparr>,
            \<lparr>score = 1, routes_info = [\<lparr>route = [''N''], depth = 0\<rparr>], starting_materials = []\<rparr>]
           initial_state = Inr (queue', st')
         \<and> length (nxt_queue st') = 3
         \<and> map score queue' = [9 / 8, 2]
         \<and> queue' = take (min (nat (beam_size toy_env)) (length (nxt_queue st'))) (sort_key score (nxt_queue st'))
         \<and> sorted (map score queue')
         \<and> list_all (\<lambda>a. list_all (\<lambda>b. score a \<le> score b) (drop 2 (sort_key score (nxt_queue st')))) queue'"
  proof (intro exI[of _ ?q] exI[of _ ?st] conjI)
    show "next_round toy_decoder toy_env 1
           [\<lparr>score = 2, routes_info = [\<lparr>route = [''CO''], depth = 0\<rparr>], starting_materials = []\<rparr>,
            \<lparr>score = 1, routes_info = [\<lparr>route = [''N''], depth = 0\<rparr>], starting_materials = []\<rparr>]
           initial_state = Inr (?q, ?st)" by (rule toy_next_round)
    show "length (nxt_queue ?st) = 3" by simp
    show "map score ?q = [9 / 8, 2]" by simp
    show "?q = take (min (nat (beam_size toy_env)) (length (nxt_queue ?st))) (sort_key score (nxt_queue ?st))"
      by (rule a1)
    show "sorted (map score ?q)" by (rule a2)
    show "list_all (\<lambda>a. list_all (\<lambda>b. score a \<le> score b) (drop 2 (sort_key score (nxt_queue ?st)))) ?q"
      by (rule a3)
  qed
  from bp[THEN conjunct2, rule_format, OF toy_first_round]
  have "\<exists>queue'' st''.
         search_rounds toy_decoder toy_env (task_depth toy_task) 1 [root_node toy_task 2] initial_state
           = Inr (queue'', st'')
         \<and> length queue'' \<le> nat (beam_size toy_env)"
    using toy_first_round by simp
  with b first show ?thesis by (intro conjI)
qed

subsection \<open>The depth cutoff\<close>

text \<open>
  The invariant of the search: every pending expansion holds a path one longer than its
  depth; every logged decoder call is within the depth budget; every emitted route has the
  path it was emitted from logged beside it.
\<close>

definition paths_ok :: "node \<Rightarrow> bool" where
  "paths_ok n = list_all (\<lambda>r. int (length (route r)) = depth r + 1) (routes_info n)"

definition log_ok :: "int \<Rightarrow> search_state \<Rightarrow> bool" where
  "log_ok max_depth st \<longleftrightarrow>
     list_all (\<lambda>c. snd c \<le> max_depth \<and> int (length (fst c)) = snd c + 1) (beam_calls st)
     \<and> length (origins st) = length (answer_set st)
     \<and> list_all (\<lambda>p. int (length p) \<le> max_depth + 1) (origins st)
     \<and> list_all paths_ok (nxt_queue st)"

lemma partition_loop_paths:
  assumes "for_each (partition_reactant e first_route d) rs (c, ir, sm) = Inr (c', ir', sm')"
  shows "\<exists>new. ir' = new @ ir \<and> (\<forall>r \<in> set new. depth r = d + 1 \<and> length (route r) = length first_route + 1)"
proof -
  let ?P = "\<lambda>s. \<exists>new. fst (snd s) = new @ ir \<and> (\<forall>r \<in> set new. depth r = d + 1 \<and> length (route r) = length first_route + 1)"
  have "?P (c', ir', sm')"
  proof (rule for_each_invariant[OF assms, where P = ?P])
    show "?P (c, ir, sm)" by simp
  next
    fix x s s'
    assume p: "?P s" and b: "partition_reactant e first_route d x s = Inr s'"
    obtain c1 ir1 sm1 where s: "s = (c1, ir1, sm1)" by (cases s) auto
    from p s obtain new0 where n0: "ir1 = new0 @ ir"
      "\<forall>r \<in> set new0. depth r = d + 1 \<and> length (route r) = length first_route + 1" by auto
    from b s consider "fst (snd s') = ir1" | "fst (snd s') = \<lparr>route = first_route @ [x], depth = d + 1\<rparr> # ir1"
      by (auto simp: partition_reactant_def split: sum.splits if_splits)
    then show "?P s'"
    proof cases
      case 1
      with n0 show ?thesis by auto
    next
      case 2
      then have "fst (snd s') = (\<lparr>route = first_route @ [x], depth = d + 1\<rparr> # new0) @ ir" using n0 by simp
      moreover have "\<forall>r \<in> set (\<lparr>route = first_route @ [x], depth = d + 1\<rparr> # new0).
          depth r = d + 1 \<and> length (route r) = length first_route + 1" using n0 by simp
      ultimately show ?thesis by blast
    qed
  qed
  then show ?thesis by simp
qed

lemma expand_solution_log_ok:
  assumes ex: "expand_solution e item first_route d mol sol st = Inr st'"
    and ok: "log_ok max_depth st" and item: "paths_ok item"
    and d: "d \<le> max_depth" and len: "int (length first_route) = d + 1"
  shows "log_ok max_depth st'"
proof -
  from ex obtain popped iter_routes where ri: "routes_info item = popped # iter_routes"
    by (auto simp: expand_solution_def split: list.splits)
  from ex ri obtain am where am: "check_reactants_are_material e (sort (fst sol)) = Inr am"
    by (auto simp: expand_solution_def Let_def split: sum.splits)
  show ?thesis
  proof (cases "am \<and> length iter_routes = 0")
    case True
    with ex ri am obtain a where "st' = st\<lparr>answer_set := answer_set st @ [a], origins := origins st @ [first_route]\<rparr>"
      by (auto simp: expand_solution_def Let_def split: sum.splits)
    with ok d len show ?thesis by (auto simp: log_ok_def)
  next
    case False
    with ex ri am obtain c ir' sm' v where
      p: "for_each (partition_reactant e first_route d) (sort (fst sol)) (0, iter_routes, starting_materials item) = Inr (c, ir', sm')"
      and st': "st' = st\<lparr>nxt_queue := nxt_queue st @ [\<lparr>score = score item + snd sol + c - v, routes_info = ir', starting_materials = sm'\<rparr>]\<rparr>"
      by (auto simp: expand_solution_def Let_def split: sum.splits if_splits)
    from partition_loop_paths[OF p] obtain new where
      n: "ir' = new @ iter_routes" "\<forall>r \<in> set new. depth r = d + 1 \<and> length (route r) = length first_route + 1"
      by blast
    have "list_all (\<lambda>r. int (length (route r)) = depth r + 1) iter_routes"
      using item ri by (simp add: paths_ok_def)
    moreover have "list_all (\<lambda>r. int (length (route r)) = depth r + 1) new"
      using n(2) len by (auto simp: list_all_iff)
    ultimately have "paths_ok \<lparr>score = score item + snd sol + c - v, routes_info = ir', starting_materials = sm'\<rparr>"
      using n(1) by (simp add: paths_ok_def)
    with ok show ?thesis unfolding st' by (simp add: log_ok_def)
  qed
qed

lemma expand_item_log_ok:
  assumes ex: "expand_item gb e max_depth item st = Inr st'"
    and ok: "log_ok max_depth st" and item: "paths_ok item"
  shows "log_ok max_depth st'"
proof -
  from ex obtain h t where ri: "routes_info item = h # t"
    by (auto simp: expand_item_def split: list.splits)
  show ?thesis
  proof (cases "depth h > max_depth")
    case True
    with ex ri have "st' = st" by (simp add: expand_item_def)
    with ok show ?thesis by simp
  next
    case False
    with ex ri obtain sols where
      fe: "for_each (expand_solution e item (route h) (depth h) (last (route h))) sols
             (st\<lparr>beam_calls := beam_calls st @ [(route h, depth h)]\<rparr>) = Inr st'"
      by (auto simp: expand_item_def split: if_splits sum.splits)
    have len: "int (length (route h)) = depth h + 1" using item ri by (simp add: paths_ok_def)
    have d: "depth h \<le> max_depth" using False by simp
    have ok0: "log_ok max_depth (st\<lparr>beam_calls := beam_calls st @ [(route h, depth h)]\<rparr>)"
      using ok len d by (simp add: log_ok_def)
    show ?thesis
      by (rule for_each_invariant[OF fe, where P = "log_ok max_depth"])
         (use ok0 expand_solution_log_ok[OF _ _ item d len] in auto)
  qed
qed

lemma next_round_log_ok:
  assumes nr: "next_round gb e max_depth queue st = Inr (queue', st')"
    and ok: "log_ok max_depth st" and q: "list_all paths_ok queue"
  shows "log_ok max_depth st' \<and> list_all paths_ok queue'"
proof -
  from nr have fe: "for_each (expand_item gb e max_depth) queue (st\<lparr>nxt_queue := []\<rparr>) = Inr st'"
    and q': "queue' = slice_to (beam_size e) (sort_key score (nxt_queue st'))"
    by (auto simp: next_round_def split: sum.splits)
  have ok0: "log_ok max_depth (st\<lparr>nxt_queue := []\<rparr>)" using ok by (simp add: log_ok_def)
  have ok': "log_ok max_depth st'"
  proof (rule for_each_invariant[OF fe, where P = "log_ok max_depth"])
    show "log_ok max_depth (st\<lparr>nxt_queue := []\<rparr>)" by (rule ok0)
  next
    fix x s s'
    assume x: "x \<in> set queue" and s: "log_ok max_depth s" and ex: "expand_item gb e max_depth x s = Inr s'"
    from x q have "paths_ok x" by (simp add: list_all_iff)
    from expand_item_log_ok[OF ex s this] show "log_ok max_depth s'" .
  qed
  have "set queue' \<subseteq> set (nxt_queue st')"
    unfolding q' using set_slice_to[of "beam_size e" "sort_key score (nxt_queue st')"] by simp
  then have "list_all paths_ok queue'" using ok' by (auto simp: log_ok_def list_all_iff)
  with ok' show ?thesis by simp
qed

lemma search_loop_log_ok:
  assumes "search_loop gb e max_depth queue st = Inr st'"
    and "log_ok max_depth st" and "list_all paths_ok queue"
  shows "log_ok max_depth st'"
  using assms
proof (induction gb e max_depth queue st rule: search_loop.induct)
  case (1 gb e max_depth queue st)
  show ?case
  proof (cases "length queue = 0")
    case True
    with "1.prems" show ?thesis by (simp add: search_loop.simps)
  next
    case False
    with "1.prems"(1) obtain q1 s1 where
      nr: "next_round gb e max_depth queue st = Inr (q1, s1)"
      and rec: "search_loop gb e max_depth q1 s1 = Inr st'"
      by (subst (asm) search_loop.simps) (auto split: sum.splits)
    from next_round_log_ok[OF nr "1.prems"(2,3)] have "log_ok max_depth s1" "list_all paths_ok q1" by simp_all
    from "1.IH"[OF False nr refl rec this] show ?thesis .
  qed
qed

text \<open>
  C3. A node whose first pending expansion is deeper than \<open>max_depth\<close> leaves the state of
  the round as it is: no decoder call is logged, no child is queued, no route is emitted (and
  the node itself is not part of the next queue, which holds children only). When the search
  of a task returns, every decoder call it made was on a pending expansion of depth at most
  \<open>max_depth\<close>, holding a path of \<open>depth + 1\<close> molecules; and every emitted route has a logged
  path of origin (the path of the expansion that emitted it) of at most \<open>max_depth + 1\<close>
  molecules.
\<close>

theorem depth_cutoff:
  "(routes_info item = h # rest \<longrightarrow> depth h > max_depth \<longrightarrow> expand_item gb e max_depth item st = Inr st)
   \<and> (route_search gb e t = Inr st' \<longrightarrow>
        list_all (\<lambda>c. snd c \<le> task_depth t \<and> int (length (fst c)) = snd c + 1) (beam_calls st')
        \<and> length (origins st') = length (answer_set st')
        \<and> list_all (\<lambda>p. int (length p) \<le> task_depth t + 1) (origins st'))"
proof (intro conjI impI)
  assume "routes_info item = h # rest" "depth h > max_depth"
  then show "expand_item gb e max_depth item st = Inr st" by (simp add: expand_item_def)
next
  assume rs: "route_search gb e t = Inr st'"
  then obtain v where sl: "search_loop gb e (task_depth t) [root_node t v] initial_state = Inr st'"
    by (auto simp: route_search_def split: sum.splits)
  have "log_ok (task_depth t) initial_state" by (simp add: log_ok_def initial_state_def)
  moreover have "list_all paths_ok [root_node t v]" by (simp add: paths_ok_def root_node_def)
  ultimately have ok: "log_ok (task_depth t) st'" by (rule search_loop_log_ok[OF sl])
  from ok show "list_all (\<lambda>c. snd c \<le> task_depth t \<and> int (length (fst c)) = snd c + 1) (beam_calls st')"
    by (simp add: log_ok_def)
  from ok show "length (origins st') = length (answer_set st')" by (simp add: log_ok_def)
  from ok show "list_all (\<lambda>p. int (length p) \<le> task_depth t + 1) (origins st')" by (simp add: log_ok_def)
qed

lemma toy_round_two:
  "next_round toy_decoder toy_env 1
     [\<lparr>score = 2, routes_info = [\<lparr>route = [''CO'', ''N''], depth = 1\<rparr>], starting_materials = []\<rparr>]
     \<lparr>answer_set = [\<lparr>answer_score = 2, answer_materials = [''C'', ''O'']\<rparr>],
      nxt_queue =
        [\<lparr>score = 2, routes_info = [\<lparr>route = [''CO'', ''N''], depth = 1\<rparr>], starting_materials = []\<rparr>],
      beam_calls = [([''CO''], 0)], origins = [[''CO'']]\<rparr>
   = Inr ([\<lparr>score = 17 / 8, routes_info = [\<lparr>route = [''CO'', ''N'', ''N''], depth = 2\<rparr>], starting_materials = [''C'']\<rparr>,
           \<lparr>score = 13 / 4, routes_info = [\<lparr>route = [''CO'', ''N'', ''CC''], depth = 2\<rparr>], starting_materials = []\<rparr>],
          \<lparr>answer_set = [\<lparr>answer_score = 2, answer_materials = [''C'', ''O'']\<rparr>],
           nxt_queue =
             [\<lparr>score = 13 / 4, routes_info = [\<lparr>route = [''CO'', ''N'', ''CC''], depth = 2\<rparr>], starting_materials = []\<rparr>,
              \<lparr>score = 17 / 8, routes_info = [\<lparr>route = [''CO'', ''N'', ''N''], depth = 2\<rparr>], starting_materials = [''C'']\<rparr>],
           beam_calls = [([''CO''], 0), ([''CO'', ''N''], 1)], origins = [[''CO'']]\<rparr>)"
  by (simp add: next_round_def expand_item_def expand_solution_def partition_reactant_def Let_def
      toy_decoder_def slice_to_def
      check_reactant_is_material_def inchikey14_def value_fn_def toy_env_def)

lemma toy_round_three:
  "next_round toy_decoder toy_env 1
     [\<lparr>score = 17 / 8, routes_info = [\<lparr>route = [''CO'', ''N'', ''N''], depth = 2\<rparr>], starting_materials = [''C'']\<rparr>,
      \<lparr>score = 13 / 4, routes_info = [\<lparr>route = [''CO'', ''N'', ''CC''], depth = 2\<rparr>], starting_materials = []\<rparr>]
     \<lparr>answer_set = [\<lparr>answer_score = 2, answer_materials = [''C'', ''O'']\<rparr>],
      nxt_queue =
        [\<lparr>score = 13 / 4, routes_info = [\<lparr>route = [''CO'', ''N'', ''CC''], depth = 2\<rparr>], starting_materials = []\<rparr>,
         \<lparr>score = 17 / 8, routes_info = [\<lparr>route = [''CO'', ''N'', ''N''], depth = 2\<rparr>], starting_materials = [''C'']\<rparr>],
      beam_calls = [([''CO''], 0), ([''CO'', ''N''], 1)], origins = [[''CO'']]\<rparr>
   = Inr ([],
          \<lparr>answer_set = [\<lparr>answer_score = 2, answer_materials = [''C'', ''O'']\<rparr>],
           nxt_queue = [],
           beam_calls = [([''CO''], 0), ([''CO'', ''N''], 1)], origins = [[''CO'']]\<rparr>)"
  by (simp add: next_round_def expand_item_def slice_to_def)

lemma toy_route_search:
  "route_search toy_decoder toy_env toy_task
   = Inr \<lparr>answer_set = [\<lparr>answer_score = 2, answer_materials = [''C'', ''O'']\<rparr>],
           nxt_queue = [],
           beam_calls = [([''CO''], 0), ([''CO'', ''N''], 1)], origins = [[''CO'']]\<rparr>"
proof -
  have v: "value_fn toy_env (task_product toy_task) = Inr 2" by (simp add: toy_task_def)
  show ?thesis
    unfolding route_search_def v toy_task_depth
    by (simp add: search_loop.simps[of _ _ _ "_ # _"] search_loop.simps[of _ _ _ "[]"]
        toy_round_one toy_round_two toy_round_three)
qed


theorem depth_cutoff_witness:
  "routes_info \<lparr>score = 17 / 8, routes_info = [\<lparr>route = [''CO'', ''N'', ''N''], depth = 2\<rparr>], starting_materials = [''C'']\<rparr>
     = \<lparr>route = [''CO'', ''N'', ''N''], depth = 2\<rparr> # []
   \<and> depth \<lparr>route = [''CO'', ''N'', ''N''], depth = 2\<rparr> > 1
   \<and> expand_item toy_decoder toy_env 1
        \<lparr>score = 17 / 8, routes_info = [\<lparr>route = [''CO'', ''N'', ''N''], depth = 2\<rparr>], starting_materials = [''C'']\<rparr>
        initial_state = Inr initial_state
   \<and> (\<exists>st'. route_search toy_decoder toy_env toy_task = Inr st'
        \<and> beam_calls st' = [([''CO''], 0), ([''CO'', ''N''], 1)]
        \<and> origins st' = [[''CO'']]
        \<and> list_all (\<lambda>c. snd c \<le> task_depth toy_task \<and> int (length (fst c)) = snd c + 1) (beam_calls st')
        \<and> length (origins st') = length (answer_set st')
        \<and> list_all (\<lambda>p. int (length p) \<le> task_depth toy_task + 1) (origins st'))"
proof -
  let ?h = "\<lparr>route = [''CO'', ''N'', ''N''], depth = 2\<rparr>"
  let ?item = "\<lparr>score = 17 / 8, routes_info = [?h], starting_materials = [''C'']\<rparr>"
  let ?st = "\<lparr>answer_set = [\<lparr>answer_score = 2, answer_materials = [''C'', ''O'']\<rparr>],
           nxt_queue = [],
           beam_calls = [([''CO''], 0), ([''CO'', ''N''], 1)], origins = [[''CO'']]\<rparr>"
  note dc = depth_cutoff[of ?item ?h "[]" 1 toy_decoder toy_env initial_state toy_task ?st]
  have h1: "routes_info ?item = ?h # []" by simp
  have h2: "depth ?h > 1" by simp
  from dc[THEN conjunct1, rule_format, OF h1 h2]
  have a: "expand_item toy_decoder toy_env 1 ?item initial_state = Inr initial_state" .
  from dc[THEN conjunct2, rule_format, OF toy_route_search]
  have b: "list_all (\<lambda>c. snd c \<le> task_depth toy_task \<and> int (length (fst c)) = snd c + 1) (beam_calls ?st)"
    "length (origins ?st) = length (answer_set ?st)"
    "list_all (\<lambda>p. int (length p) \<le> task_depth toy_task + 1) (origins ?st)"
    by blast+
  have "\<exists>st'. route_search toy_decoder toy_env toy_task = Inr st'
        \<and> beam_calls st' = [([''CO''], 0), ([''CO'', ''N''], 1)]
        \<and> origins st' = [[''CO'']]
        \<and> list_all (\<lambda>c. snd c \<le> task_depth toy_task \<and> int (length (fst c)) = snd c + 1) (beam_calls st')
        \<and> length (origins st') = length (answer_set st')
        \<and> list_all (\<lambda>p. int (length p) \<le> task_depth toy_task + 1) (origins st')"
  proof (intro exI[of _ ?st] conjI)
    show "route_search toy_decoder toy_env toy_task = Inr ?st" by (rule toy_route_search)
    show "beam_calls ?st = [([''CO''], 0), ([''CO'', ''N''], 1)]" by simp
    show "origins ?st = [[''CO'']]" by simp
  qed (rule b)+
  with h1 h2 a show ?thesis by (intro conjI)
qed

section \<open>Properties of the deduplication and of the rank\<close>

text \<open>
  The identity keys of a route's materials, in the order of the materials (the empty list
  when a material has none: the deduplication raises then), the key by which routes are
  compared, and what keeping the first occurrence of each key means.
\<close>

definition material_keys :: "'m env \<Rightarrow> answer \<Rightarrow> string list" where
  "material_keys e a = (case map_err (inchikey14 e) (answer_materials a) of Inl err \<Rightarrow> [] | Inr ks \<Rightarrow> ks)"

definition dedup_key :: "string list \<Rightarrow> string" where
  "dedup_key ks = join ''.'' (sort ks)"

fun keep_first :: "('a \<Rightarrow> 'k) \<Rightarrow> 'k set \<Rightarrow> 'a list \<Rightarrow> 'a list" where
  "keep_first key seen [] = []"
| "keep_first key seen (x # xs) =
     (if key x \<in> seen then keep_first key seen xs
      else x # keep_first key (insert (key x) seen) xs)"

definition unscored :: "'m env \<Rightarrow> answer \<Rightarrow> final_answer" where
  "unscored e a =
     \<lparr>final_score = answer_score a, answer_keys = material_keys e a, rerank_score = None, total_score = None\<rparr>"

lemma keep_first_fresh: "x \<in> set (keep_first key seen xs) \<Longrightarrow> key x \<notin> seen"
  by (induction xs arbitrary: seen) (auto split: if_splits)

lemma keep_first_distinct: "distinct (map key (keep_first key seen xs))"
proof (induction xs arbitrary: seen)
  case Nil
  then show ?case by simp
next
  case (Cons x xs)
  show ?case
  proof (cases "key x \<in> seen")
    case True
    then show ?thesis using Cons.IH by simp
  next
    case False
    have "key x \<notin> key ` set (keep_first key (insert (key x) seen) xs)"
    proof
      assume "key x \<in> key ` set (keep_first key (insert (key x) seen) xs)"
      then obtain y where y: "y \<in> set (keep_first key (insert (key x) seen) xs)" "key y = key x" by auto
      from keep_first_fresh[OF y(1)] y(2) show False by simp
    qed
    then show ?thesis using False Cons.IH by simp
  qed
qed

lemma dedup_loop_keeps_first:
  assumes "for_each (dedup_item e target) xs (seen, fas, ins, outs) = Inr (seen', fas', ins', outs')"
  shows "fas' = fas @ map (unscored e) (keep_first (\<lambda>a. dedup_key (material_keys e a)) seen xs)"
  using assms
proof (induction xs arbitrary: seen fas ins outs)
  case Nil
  then show ?case by simp
next
  case (Cons a xs)
  from Cons.prems obtain ks where ks: "map_err (inchikey14 e) (answer_materials a) = Inr ks"
    by (auto simp: dedup_item_def Let_def split: sum.splits)
  then have mk: "material_keys e a = ks" by (simp add: material_keys_def)
  show ?case
  proof (cases "dedup_key ks \<in> seen")
    case True
    with ks have "dedup_item e target a (seen, fas, ins, outs) = Inr (seen, fas, ins, outs)"
      by (simp add: dedup_item_def Let_def dedup_key_def)
    with Cons.prems have "for_each (dedup_item e target) xs (seen, fas, ins, outs) = Inr (seen', fas', ins', outs')"
      by simp
    from Cons.IH[OF this] show ?thesis using True mk by simp
  next
    case False
    let ?out = "join ''.'' (sort (map (\<lambda>material. snd (cano_smiles e material)) (answer_materials a)))"
    from False ks have "dedup_item e target a (seen, fas, ins, outs)
        = Inr (insert (dedup_key ks) seen, fas @ [unscored e a], ins @ [target], outs @ [?out])"
      by (simp add: dedup_item_def Let_def dedup_key_def unscored_def mk)
    with Cons.prems have "for_each (dedup_item e target) xs
        (insert (dedup_key ks) seen, fas @ [unscored e a], ins @ [target], outs @ [?out]) = Inr (seen', fas', ins', outs')"
      by simp
    from Cons.IH[OF this] show ?thesis using False mk by simp
  qed
qed

lemma assign_scores_keeps:
  "assign_scores a ss fas = Inr fas' \<Longrightarrow>
   map answer_keys fas' = map answer_keys fas \<and> map final_score fas' = map final_score fas"
  by (induction a ss fas arbitrary: fas' rule: assign_scores.induct) (auto split: sum.splits)

lemma sort_by_total_mset: "sort_by_total fas = Inr ranked \<Longrightarrow> mset ranked = mset fas"
  by (auto simp: sort_by_total_def split: if_splits)

lemma slice_to_take: "\<exists>k. slice_to n xs = take k xs"
  by (auto simp: slice_to_def)

lemma dedup_rerank_stages:
  assumes "dedup_rerank e target answers = Inr final"
  obtains fas scored ranked k where
    "fas = map (unscored e) (keep_first (\<lambda>a. dedup_key (material_keys e a)) {} (sort_key answer_score answers))"
    "map answer_keys scored = map answer_keys fas" "map final_score scored = map final_score fas"
    "mset ranked = mset scored" "final = take k ranked"
proof -
  from assms obtain seen fas ins outs where
    loop: "for_each (dedup_item e target) (sort_key answer_score answers) ({}, [], [], []) = Inr (seen, fas, ins, outs)"
    by (auto simp: dedup_rerank_def split: sum.splits)
  with assms obtain ss scored ranked where
    sc: "assign_scores (alpha e) ss fas = Inr scored" and rk: "sort_by_total scored = Inr ranked"
    and fin: "final = slice_to (beam_size e) ranked"
    by (auto simp: dedup_rerank_def split: sum.splits option.splits)
  from slice_to_take[of "beam_size e" ranked] fin obtain k where k: "final = take k ranked" by auto
  show ?thesis
    using that[OF _ _ _ sort_by_total_mset[OF rk] k] dedup_loop_keeps_first[OF loop] assign_scores_keeps[OF sc]
    by simp
qed

text \<open>
  C1, as the code has it. When the deduplication and reranking of an answer set returns,
  no two entries of the final list have the same deduplication key, which is the sorted list
  of identity keys (with their multiplicities) joined by dots; so no two entries have the
  same multiset of identity keys. The entries come from the routes sorted ascending by
  score (a stable sort) of which the first of each key is kept: the (score, keys) pairs of
  the final list are among those of the kept routes, each at most as often.
\<close>

theorem dedup_keeps_first_of_each_key:
  assumes "dedup_rerank e target answers = Inr final"
  shows "distinct (map (\<lambda>fa. dedup_key (answer_keys fa)) final)
       \<and> distinct (map (\<lambda>fa. mset (answer_keys fa)) final)
       \<and> mset (map (\<lambda>fa. (final_score fa, answer_keys fa)) final) \<subseteq>#
           mset (map (\<lambda>a. (answer_score a, material_keys e a))
                  (keep_first (\<lambda>a. dedup_key (material_keys e a)) {} (sort_key answer_score answers)))"
proof -
  let ?kept = "keep_first (\<lambda>a. dedup_key (material_keys e a)) {} (sort_key answer_score answers)"
  from dedup_rerank_stages[OF assms] obtain fas scored ranked k where
    fas: "fas = map (unscored e) ?kept"
    and sc: "map answer_keys scored = map answer_keys fas" "map final_score scored = map final_score fas"
    and rk: "mset ranked = mset scored" and fin: "final = take k ranked"
    by blast
  have "distinct (map (\<lambda>a. dedup_key (material_keys e a)) ?kept)" by (rule keep_first_distinct)
  then have "distinct (map (\<lambda>fa. dedup_key (answer_keys fa)) fas)"
    unfolding fas by (simp add: comp_def unscored_def)
  moreover have "map (\<lambda>fa. dedup_key (answer_keys fa)) scored = map (\<lambda>fa. dedup_key (answer_keys fa)) fas"
  proof -
    have "map (\<lambda>fa. dedup_key (answer_keys fa)) scored = map dedup_key (map answer_keys scored)"
      by (simp add: comp_def)
    also have "\<dots> = map dedup_key (map answer_keys fas)" using sc(1) by simp
    also have "\<dots> = map (\<lambda>fa. dedup_key (answer_keys fa)) fas" by (simp add: comp_def)
    finally show ?thesis .
  qed
  ultimately have "distinct (map (\<lambda>fa. dedup_key (answer_keys fa)) scored)" by simp
  moreover have "mset (map (\<lambda>fa. dedup_key (answer_keys fa)) ranked) = mset (map (\<lambda>fa. dedup_key (answer_keys fa)) scored)"
    using rk by simp
  ultimately have dr: "distinct (map (\<lambda>fa. dedup_key (answer_keys fa)) ranked)"
    using mset_eq_imp_distinct_iff by blast
  have d1: "distinct (map (\<lambda>fa. dedup_key (answer_keys fa)) final)"
    unfolding fin using dr by (simp add: take_map[symmetric] distinct_take)
  have inj: "dedup_key ks = dedup_key ks'" if "mset ks = mset ks'" for ks ks' :: "string list"
  proof -
    have "sort ks' = sort ks" by (rule properties_for_sort) (simp_all add: that)
    then show ?thesis by (simp add: dedup_key_def)
  qed
  have d2: "distinct (map (\<lambda>fa. mset (answer_keys fa)) final)"
  proof -
    have "inj_on (\<lambda>fa. mset (answer_keys fa)) (set final) \<and> distinct final"
    proof
      show "inj_on (\<lambda>fa. mset (answer_keys fa)) (set final)"
      proof (rule inj_onI)
        fix x y assume "x \<in> set final" "y \<in> set final" "mset (answer_keys x) = mset (answer_keys y)"
        then have "dedup_key (answer_keys x) = dedup_key (answer_keys y)" using inj by blast
        with d1 \<open>x \<in> set final\<close> \<open>y \<in> set final\<close> show "x = y"
          by (meson distinct_map inj_onD)
      qed
      show "distinct final" using d1 by (simp add: distinct_map)
    qed
    then show ?thesis by (simp add: distinct_map)
  qed
  let ?p = "\<lambda>fa. (final_score fa, answer_keys fa)"
  have "map ?p scored = zip (map final_score scored) (map answer_keys scored)"
    by (simp add: zip_map_map zip_same_conv_map)
  also have "\<dots> = zip (map final_score fas) (map answer_keys fas)" using sc by simp
  also have "\<dots> = map ?p fas" by (simp add: zip_map_map zip_same_conv_map)
  finally have ps: "map ?p scored = map ?p fas" .
  have "mset (map ?p final) \<subseteq># mset (map ?p ranked)"
    unfolding fin by (metis append_take_drop_id map_append mset_append mset_subset_eq_add_left)
  also have "mset (map ?p ranked) = mset (map ?p scored)" using rk by simp
  also have "\<dots> = mset (map ?p fas)" using ps by simp
  also have "\<dots> = mset (map (\<lambda>a. (answer_score a, material_keys e a)) ?kept)"
    unfolding fas by (simp add: comp_def unscored_def)
  finally have d3: "mset (map ?p final) \<subseteq># mset (map (\<lambda>a. (answer_score a, material_keys e a)) ?kept)" .
  from d1 d2 d3 show ?thesis by simp
qed

lemma twice_route_search:
  "route_search twice_decoder toy_env toy_task
   = Inr \<lparr>answer_set = [\<lparr>answer_score = 1, answer_materials = [''C'']\<rparr>,
                         \<lparr>answer_score = 5 / 4, answer_materials = [''C'', ''C'']\<rparr>],
           nxt_queue = [],
           beam_calls = [([''CO''], 0), ([''CO'', ''N''], 1)], origins = [[''CO''], [''CO'', ''N'']]\<rparr>"
proof -
  have v: "value_fn toy_env (task_product toy_task) = Inr 2" by (simp add: toy_task_def)
  have r1: "next_round twice_decoder toy_env 1 [root_node toy_task 2] initial_state
     = Inr ([\<lparr>score = 2, routes_info = [\<lparr>route = [''CO'', ''N''], depth = 1\<rparr>], starting_materials = [''C'']\<rparr>],
          \<lparr>answer_set = [\<lparr>answer_score = 1, answer_materials = [''C'']\<rparr>],
           nxt_queue =
             [\<lparr>score = 2, routes_info = [\<lparr>route = [''CO'', ''N''], depth = 1\<rparr>], starting_materials = [''C'']\<rparr>],
           beam_calls = [([''CO''], 0)], origins = [[''CO'']]\<rparr>)"
    by (simp add: next_round_def expand_item_def expand_solution_def partition_reactant_def Let_def
      twice_decoder_def toy_task_def root_node_def initial_state_def slice_to_def
      check_reactant_is_material_def inchikey14_def value_fn_def toy_env_def)
  have r2: "next_round twice_decoder toy_env 1
       [\<lparr>score = 2, routes_info = [\<lparr>route = [''CO'', ''N''], depth = 1\<rparr>], starting_materials = [''C'']\<rparr>]
       \<lparr>answer_set = [\<lparr>answer_score = 1, answer_materials = [''C'']\<rparr>],
           nxt_queue =
             [\<lparr>score = 2, routes_info = [\<lparr>route = [''CO'', ''N''], depth = 1\<rparr>], starting_materials = [''C'']\<rparr>],
           beam_calls = [([''CO''], 0)], origins = [[''CO'']]\<rparr>
     = Inr ([],
          \<lparr>answer_set = [\<lparr>answer_score = 1, answer_materials = [''C'']\<rparr>,
                         \<lparr>answer_score = 5 / 4, answer_materials = [''C'', ''C'']\<rparr>],
           nxt_queue = [],
           beam_calls = [([''CO''], 0), ([''CO'', ''N''], 1)], origins = [[''CO''], [''CO'', ''N'']]\<rparr>)"
    by (simp add: next_round_def expand_item_def expand_solution_def partition_reactant_def Let_def
      twice_decoder_def slice_to_def
      check_reactant_is_material_def inchikey14_def value_fn_def toy_env_def)
  show ?thesis
    unfolding route_search_def v toy_task_depth
    by (simp add: search_loop.simps[of _ _ _ "_ # _"] search_loop.simps[of _ _ _ "[]"] r1 r2)
qed

lemma twice_dedup_rerank:
  "dedup_rerank toy_env ''CO''
     [\<lparr>answer_score = 1, answer_materials = [''C'']\<rparr>, \<lparr>answer_score = 5 / 4, answer_materials = [''C'', ''C'']\<rparr>]
   = Inr [\<lparr>final_score = 1, answer_keys = [''C''], rerank_score = Some 0, total_score = Some 1\<rparr>,
          \<lparr>final_score = 5 / 4, answer_keys = [''C'', ''C''], rerank_score = Some 0, total_score = Some (5 / 4)\<rparr>]"
  by (simp add: dedup_rerank_def dedup_item_def Let_def inchikey14_def cano_smiles_def
      sort_by_total_def slice_to_def toy_env_def)


theorem dedup_keeps_first_of_each_key_witness:
  "dedup_rerank toy_env ''CO''
     [\<lparr>answer_score = 1, answer_materials = [''C'']\<rparr>, \<lparr>answer_score = 5 / 4, answer_materials = [''C'', ''C'']\<rparr>]
   = Inr [\<lparr>final_score = 1, answer_keys = [''C''], rerank_score = Some 0, total_score = Some 1\<rparr>,
          \<lparr>final_score = 5 / 4, answer_keys = [''C'', ''C''], rerank_score = Some 0, total_score = Some (5 / 4)\<rparr>]
   \<and> distinct (map (\<lambda>fa. dedup_key (answer_keys fa))
        [\<lparr>final_score = 1, answer_keys = [''C''], rerank_score = Some 0, total_score = Some 1\<rparr>,
         \<lparr>final_score = 5 / 4, answer_keys = [''C'', ''C''], rerank_score = Some 0, total_score = Some (5 / 4)\<rparr>])
   \<and> distinct (map (\<lambda>fa. mset (answer_keys fa))
        [\<lparr>final_score = 1, answer_keys = [''C''], rerank_score = Some 0, total_score = Some 1\<rparr>,
         \<lparr>final_score = 5 / 4, answer_keys = [''C'', ''C''], rerank_score = Some 0, total_score = Some (5 / 4)\<rparr>])
   \<and> mset (map (\<lambda>fa. (final_score fa, answer_keys fa))
        [\<lparr>final_score = 1, answer_keys = [''C''], rerank_score = Some 0, total_score = Some 1\<rparr>,
         \<lparr>final_score = 5 / 4, answer_keys = [''C'', ''C''], rerank_score = Some 0, total_score = Some (5 / 4)\<rparr>])
       \<subseteq># mset (map (\<lambda>a. (answer_score a, material_keys toy_env a))
              (keep_first (\<lambda>a. dedup_key (material_keys toy_env a)) {}
                (sort_key answer_score
                  [\<lparr>answer_score = 1, answer_materials = [''C'']\<rparr>,
                   \<lparr>answer_score = 5 / 4, answer_materials = [''C'', ''C'']\<rparr>])))"
  using dedup_keeps_first_of_each_key[OF twice_dedup_rerank] twice_dedup_rerank
  by (intro conjI) blast+

text \<open>
  C1 as the specification words it fails: the search of \<open>toy_task\<close> with the decoder
  \<open>twice_decoder\<close> finds the route with materials \<open>C\<close> and the route with materials
  \<open>C, C\<close>; both are in the final list, and their sets of identity keys are equal.
\<close>

theorem equal_key_sets_counterexample:
  "route_search twice_decoder toy_env toy_task
     = Inr \<lparr>answer_set = [\<lparr>answer_score = 1, answer_materials = [''C'']\<rparr>,
                           \<lparr>answer_score = 5 / 4, answer_materials = [''C'', ''C'']\<rparr>],
             nxt_queue = [],
             beam_calls = [([''CO''], 0), ([''CO'', ''N''], 1)], origins = [[''CO''], [''CO'', ''N'']]\<rparr>
   \<and> dedup_rerank toy_env (task_product toy_task)
       [\<lparr>answer_score = 1, answer_materials = [''C'']\<rparr>, \<lparr>answer_score = 5 / 4, answer_materials = [''C'', ''C'']\<rparr>]
     = Inr [\<lparr>final_score = 1, answer_keys = [''C''], rerank_score = Some 0, total_score = Some 1\<rparr>,
            \<lparr>final_score = 5 / 4, answer_keys = [''C'', ''C''], rerank_score = Some 0, total_score = Some (5 / 4)\<rparr>]
   \<and> set (answer_keys \<lparr>final_score = 1, answer_keys = [''C''], rerank_score = Some 0, total_score = Some 1\<rparr>)
     = set (answer_keys \<lparr>final_score = 5 / 4, answer_keys = [''C'', ''C''], rerank_score = Some 0, total_score = Some (5 / 4)\<rparr>)"
  using twice_route_search twice_dedup_rerank by (simp add: toy_task_def)

subsection \<open>The rank against the ground truth\<close>

lemma find_rank_None:
  "find_rank gts fas k = None \<longleftrightarrow> (\<forall>i<length fas. set (answer_keys (fas ! i)) \<notin> set gts)"
proof (induction fas arbitrary: k)
  case Nil
  then show ?case by simp
next
  case (Cons fa fas)
  show ?case
  proof (cases "set (answer_keys fa) \<in> set gts")
    case True
    then have "find_rank gts (fa # fas) k = Some k" by (auto simp: list_ex_iff)
    moreover have "\<not> (\<forall>i<length (fa # fas). set (answer_keys ((fa # fas) ! i)) \<notin> set gts)"
      using True by (auto intro: exI[of _ 0])
    ultimately show ?thesis by simp
  next
    case False
    then have "find_rank gts (fa # fas) k = find_rank gts fas (Suc k)" by (auto simp: list_ex_iff)
    moreover have "(\<forall>i<length (fa # fas). set (answer_keys ((fa # fas) ! i)) \<notin> set gts)
        \<longleftrightarrow> (\<forall>i<length fas. set (answer_keys (fas ! i)) \<notin> set gts)"
      using False by (auto simp: nth_Cons split: nat.splits)
    ultimately show ?thesis using Cons.IH by simp
  qed
qed

lemma find_rank_Some:
  "find_rank gts fas k = Some r \<Longrightarrow>
   k \<le> r \<and> r - k < length fas \<and> set (answer_keys (fas ! (r - k))) \<in> set gts
   \<and> (\<forall>i<r - k. set (answer_keys (fas ! i)) \<notin> set gts)"
proof (induction fas arbitrary: k)
  case Nil
  then show ?case by simp
next
  case (Cons fa fas)
  show ?case
  proof (cases "set (answer_keys fa) \<in> set gts")
    case True
    with Cons.prems have "r = k" by (auto simp: list_ex_iff)
    with True show ?thesis by simp
  next
    case False
    with Cons.prems have rec: "find_rank gts fas (Suc k) = Some r" by (auto simp: list_ex_iff)
    from Cons.IH[OF rec] have ih: "Suc k \<le> r" "r - Suc k < length fas"
      "set (answer_keys (fas ! (r - Suc k))) \<in> set gts"
      "\<forall>i<r - Suc k. set (answer_keys (fas ! i)) \<notin> set gts" by simp_all
    from ih(1) obtain m where m: "r - k = Suc m" "r - Suc k = m" by (cases "r - k") auto
    have "\<forall>i<r - k. set (answer_keys ((fa # fas) ! i)) \<notin> set gts"
      using False ih(4) m by (auto simp: nth_Cons split: nat.splits)
    with ih m show ?thesis by simp
  qed
qed

lemma dedup_rerank_empty:
  "get_rerank_scores e [] [] = Some [] \<Longrightarrow> dedup_rerank e target [] = Inr []"
  by (simp add: dedup_rerank_def sort_by_total_def slice_to_def)

text \<open>
  C8. For a task whose search returns, whose answer set is deduplicated and reranked into the
  list \<open>final\<close>, and whose ground-truth materials all have identity keys (the sets \<open>gts\<close>):
  the result is the pair of the task's depth and a rank; the rank is \<open>None\<close> exactly when no
  entry of \<open>final\<close> has a set of identity keys equal to a ground-truth set, and otherwise it
  is the position, counted from 0, of the first such entry. In particular, when the search
  returns without any route (and the reranker answers the empty batch with no score), the
  result is the pair of the depth and \<open>None\<close>: a value, not an error.
\<close>

theorem rank_of_first_match:
  "(route_search gb e t = Inr st \<longrightarrow>
    dedup_rerank e (task_product t) (answer_set st) = Inr final \<longrightarrow>
    ground_truth_keys e (task_targets t) = Inr gts \<longrightarrow>
      (\<exists>rank. get_route_result_with gb e t = Inr (task_depth t, rank)
         \<and> (rank = None \<longleftrightarrow> (\<forall>i<length final. set (answer_keys (final ! i)) \<notin> set gts))
         \<and> (\<forall>r. rank = Some r \<longrightarrow>
               r < length final \<and> set (answer_keys (final ! r)) \<in> set gts
               \<and> (\<forall>i<r. set (answer_keys (final ! i)) \<notin> set gts))))
   \<and> (route_search gb e t' = Inr st' \<longrightarrow> answer_set st' = [] \<longrightarrow>
      get_rerank_scores e [] [] = Some [] \<longrightarrow>
      ground_truth_keys e (task_targets t') = Inr gts' \<longrightarrow>
        get_route_result_with gb e t' = Inr (task_depth t', None))"
proof (intro conjI impI)
  assume rs: "route_search gb e t = Inr st"
    and dr: "dedup_rerank e (task_product t) (answer_set st) = Inr final"
    and gt: "ground_truth_keys e (task_targets t) = Inr gts"
  have res: "get_route_result_with gb e t = Inr (task_depth t, find_rank gts final 0)"
    using rs dr gt by (simp add: get_route_result_with_def)
  have some: "\<forall>r. find_rank gts final 0 = Some r \<longrightarrow>
               r < length final \<and> set (answer_keys (final ! r)) \<in> set gts
               \<and> (\<forall>i<r. set (answer_keys (final ! i)) \<notin> set gts)"
    using find_rank_Some[of gts final 0] by auto
  show "\<exists>rank. get_route_result_with gb e t = Inr (task_depth t, rank)
         \<and> (rank = None \<longleftrightarrow> (\<forall>i<length final. set (answer_keys (final ! i)) \<notin> set gts))
         \<and> (\<forall>r. rank = Some r \<longrightarrow>
               r < length final \<and> set (answer_keys (final ! r)) \<in> set gts
               \<and> (\<forall>i<r. set (answer_keys (final ! i)) \<notin> set gts))"
  proof (intro exI[of _ "find_rank gts final 0"] conjI)
    show "get_route_result_with gb e t = Inr (task_depth t, find_rank gts final 0)" by (rule res)
    show "(find_rank gts final 0 = None) = (\<forall>i<length final. set (answer_keys (final ! i)) \<notin> set gts)"
      by (rule find_rank_None)
    show "\<forall>r. find_rank gts final 0 = Some r \<longrightarrow>
               r < length final \<and> set (answer_keys (final ! r)) \<in> set gts
               \<and> (\<forall>i<r. set (answer_keys (final ! i)) \<notin> set gts)" by (rule some)
  qed
next
  assume "route_search gb e t' = Inr st'" "answer_set st' = []" "get_rerank_scores e [] [] = Some []"
    "ground_truth_keys e (task_targets t') = Inr gts'"
  then show "get_route_result_with gb e t' = Inr (task_depth t', None)"
    by (simp add: get_route_result_with_def dedup_rerank_empty)
qed

lemma toy_dedup_rerank:
  "dedup_rerank toy_env ''CO'' [\<lparr>answer_score = 2, answer_materials = [''C'', ''O'']\<rparr>]
   = Inr [\<lparr>final_score = 2, answer_keys = [''C'', ''O''], rerank_score = Some 0, total_score = Some 2\<rparr>]"
  by (simp add: dedup_rerank_def dedup_item_def Let_def inchikey14_def cano_smiles_def
      sort_by_total_def slice_to_def toy_env_def)

lemma toy_ground_truth: "ground_truth_keys toy_env [[''C'', ''O'']] = Inr [{''C'', ''O''}]"
  by (simp add: ground_truth_keys_def inchikey14_def toy_env_def)

lemma dead_ground_truth: "ground_truth_keys toy_env [[''C'']] = Inr [{''C''}]"
  by (simp add: ground_truth_keys_def inchikey14_def toy_env_def)

lemma dead_route_search:
  "route_search toy_decoder toy_env dead_task
   = Inr \<lparr>answer_set = [], nxt_queue = [], beam_calls = [([''N''], 0)], origins = []\<rparr>"
proof -
  have v: "value_fn toy_env (task_product dead_task) = Inr 1" by (simp add: dead_task_def)
  have d: "task_depth dead_task = 0" by (simp add: dead_task_def)
  have r1: "next_round toy_decoder toy_env 0 [root_node dead_task 1] initial_state
     = Inr ([\<lparr>score = 9 / 8, routes_info = [\<lparr>route = [''N'', ''N''], depth = 1\<rparr>], starting_materials = [''C'']\<rparr>,
             \<lparr>score = 9 / 4, routes_info = [\<lparr>route = [''N'', ''CC''], depth = 1\<rparr>], starting_materials = []\<rparr>],
          \<lparr>answer_set = [],
           nxt_queue =
             [\<lparr>score = 9 / 4, routes_info = [\<lparr>route = [''N'', ''CC''], depth = 1\<rparr>], starting_materials = []\<rparr>,
              \<lparr>score = 9 / 8, routes_info = [\<lparr>route = [''N'', ''N''], depth = 1\<rparr>], starting_materials = [''C'']\<rparr>],
           beam_calls = [([''N''], 0)], origins = []\<rparr>)"
    by (simp add: next_round_def expand_item_def expand_solution_def partition_reactant_def Let_def
      toy_decoder_def dead_task_def root_node_def initial_state_def slice_to_def
      check_reactant_is_material_def inchikey14_def value_fn_def toy_env_def)
  have r2: "next_round toy_decoder toy_env 0
       [\<lparr>score = 9 / 8, routes_info = [\<lparr>route = [''N'', ''N''], depth = 1\<rparr>], starting_materials = [''C'']\<rparr>,
        \<lparr>score = 9 / 4, routes_info = [\<lparr>route = [''N'', ''CC''], depth = 1\<rparr>], starting_materials = []\<rparr>]
       \<lparr>answer_set = [],
           nxt_queue =
             [\<lparr>score = 9 / 4, routes_info = [\<lparr>route = [''N'', ''CC''], depth = 1\<rparr>], starting_materials = []\<rparr>,
              \<lparr>score = 9 / 8, routes_info = [\<lparr>route = [''N'', ''N''], depth = 1\<rparr>], starting_materials = [''C'']\<rparr>],
           beam_calls = [([''N''], 0)], origins = []\<rparr>
     = Inr ([], \<lparr>answer_set = [], nxt_queue = [], beam_calls = [([''N''], 0)], origins = []\<rparr>)"
    by (simp add: next_round_def expand_item_def slice_to_def)
  show ?thesis
    unfolding route_search_def v d
    by (simp add: search_loop.simps[of _ _ _ "_ # _"] search_loop.simps[of _ _ _ "[]"] r1 r2)
qed

theorem rank_of_first_match_witness:
  "route_search toy_decoder toy_env toy_task
     = Inr \<lparr>answer_set = [\<lparr>answer_score = 2, answer_materials = [''C'', ''O'']\<rparr>], nxt_queue = [],
             beam_calls = [([''CO''], 0), ([''CO'', ''N''], 1)], origins = [[''CO'']]\<rparr>
   \<and> dedup_rerank toy_env ''CO'' [\<lparr>answer_score = 2, answer_materials = [''C'', ''O'']\<rparr>]
     = Inr [\<lparr>final_score = 2, answer_keys = [''C'', ''O''], rerank_score = Some 0, total_score = Some 2\<rparr>]
   \<and> ground_truth_keys toy_env (task_targets toy_task) = Inr [{''C'', ''O''}]
   \<and> get_route_result_with toy_decoder toy_env toy_task = Inr (1, Some 0)
   \<and> route_search toy_decoder toy_env dead_task
     = Inr \<lparr>answer_set = [], nxt_queue = [], beam_calls = [([''N''], 0)], origins = []\<rparr>
   \<and> get_rerank_scores toy_env [] [] = Some []
   \<and> ground_truth_keys toy_env (task_targets dead_task) = Inr [{''C''}]
   \<and> get_route_result_with toy_decoder toy_env dead_task = Inr (0, None)"
proof -
  let ?st = "\<lparr>answer_set = [\<lparr>answer_score = 2, answer_materials = [''C'', ''O'']\<rparr>], nxt_queue = [],
             beam_calls = [([''CO''], 0), ([''CO'', ''N''], 1)], origins = [[''CO'']]\<rparr>"
  let ?final = "[\<lparr>final_score = 2, answer_keys = [''C'', ''O''], rerank_score = Some 0, total_score = Some 2\<rparr>]"
  let ?dead = "\<lparr>answer_set = [], nxt_queue = [], beam_calls = [([''N''], 0)], origins = []\<rparr>"
  note rk = rank_of_first_match[of toy_decoder toy_env toy_task ?st ?final "[{''C'', ''O''}]" dead_task ?dead "[{''C''}]"]
  have dr: "dedup_rerank toy_env (task_product toy_task) (answer_set ?st) = Inr ?final"
    using toy_dedup_rerank by (simp add: toy_task_def)
  have gt: "ground_truth_keys toy_env (task_targets toy_task) = Inr [{''C'', ''O''}]"
    using toy_ground_truth by (simp add: toy_task_def)
  from rk[THEN conjunct1, rule_format, OF toy_route_search dr gt] obtain rank where
    res: "get_route_result_with toy_decoder toy_env toy_task = Inr (task_depth toy_task, rank)"
    and none: "rank = None \<longleftrightarrow> (\<forall>i<length ?final. set (answer_keys (?final ! i)) \<notin> set [{''C'', ''O''}])"
    and some: "\<forall>r. rank = Some r \<longrightarrow> r < length ?final" by blast
  from none have "rank \<noteq> None" by simp
  then obtain r where "rank = Some r" by auto
  with some have "rank = Some 0" by simp
  with res have a: "get_route_result_with toy_decoder toy_env toy_task = Inr (1, Some 0)"
    by (simp add: toy_task_depth)
  have e: "get_rerank_scores toy_env [] [] = Some []" by (simp add: toy_env_def)
  have gd: "ground_truth_keys toy_env (task_targets dead_task) = Inr [{''C''}]"
    using dead_ground_truth by (simp add: dead_task_def)
  have em: "answer_set ?dead = []" by simp
  from rk[THEN conjunct2, rule_format, OF dead_route_search em e gd]
  have b: "get_route_result_with toy_decoder toy_env dead_task = Inr (0, None)"
    by (simp add: dead_task_def)
  from toy_route_search toy_dedup_rerank gt a dead_route_search e gd b show ?thesis by (intro conjI)
qed

subsection \<open>The candidates the decoder returns\<close>

lemma collect_answers_zero: "collect_answers e fbs 0 = []"
  by (cases fbs) simp_all

lemma collect_answers_length: "0 \<le> aim_size \<Longrightarrow> length (collect_answers e fbs aim_size) \<le> nat aim_size"
proof (induction fbs arbitrary: aim_size)
  case Nil
  then show ?case by simp
next
  case (Cons fb fbs)
  show ?case
  proof (cases "aim_size = 0")
    case True
    then show ?thesis by simp
  next
    case False
    with Cons.prems have pos: "0 \<le> aim_size - 1" and suc: "nat aim_size = Suc (nat (aim_size - 1))" by simp_all
    from Cons.IH[OF pos] Cons.IH[OF Cons.prems] show ?thesis
      using False suc by (simp add: Let_def)
  qed
qed

lemma map_filter_all:
  assumes "length (List.map_filter f xs) = length xs"
  shows "(\<forall>x \<in> set xs. f x \<noteq> None) \<and> List.map_filter f xs = map (\<lambda>x. the (f x)) xs"
proof -
  have "length (filter (\<lambda>x. f x \<noteq> None) xs) = length xs"
    using assms by (simp add: List.map_filter_def)
  moreover have "length (filter (\<lambda>x. f x \<noteq> None) xs) + length (filter (\<lambda>x. \<not> f x \<noteq> None) xs) = length xs"
    by (rule sum_length_filter_compl)
  ultimately have "filter (\<lambda>x. \<not> f x \<noteq> None) xs = []" by simp
  then have all: "\<forall>x \<in> set xs. f x \<noteq> None" by (simp add: filter_empty_conv)
  then have "filter (\<lambda>x. f x \<noteq> None) xs = xs" by simp
  then show ?thesis using all by (simp add: List.map_filter_def comp_def)
qed

lemma collect_answers_valid:
  assumes "c \<in> set (collect_answers e fbs aim_size)"
  shows "\<exists>fb \<in> set fbs. snd c = snd fb
           \<and> (\<forall>r \<in> set (fragments (fst fb)). MolFromSmiles e r \<noteq> None)
           \<and> fst c = sort (remdups (map (\<lambda>r. MolToSmiles e (the (MolFromSmiles e r))) (fragments (fst fb))))
           \<and> fst c \<noteq> []"
  using assms
proof (induction fbs arbitrary: aim_size)
  case Nil
  then show ?case by simp
next
  case (Cons fb fbs)
  let ?valid = "List.map_filter (MolFromSmiles e) (fragments (fst fb))"
  let ?sms = "remdups (map (MolToSmiles e) ?valid)"
  from Cons.prems have nz: "aim_size \<noteq> 0" by (auto split: if_splits)
  show ?case
  proof (cases "length ?valid = length (fragments (fst fb)) \<and> ?sms \<noteq> []")
    case False
    with Cons.prems nz have "c \<in> set (collect_answers e fbs aim_size)"
      by (auto simp: Let_def split: if_splits)
    from Cons.IH[OF this] show ?thesis by auto
  next
    case True
    with Cons.prems nz consider "c = (sort ?sms, snd fb)" | "c \<in> set (collect_answers e fbs (aim_size - 1))"
      by (auto simp: Let_def)
    then show ?thesis
    proof cases
      case 1
      from map_filter_all[of "MolFromSmiles e" "fragments (fst fb)"] True
      have all: "\<forall>r \<in> set (fragments (fst fb)). MolFromSmiles e r \<noteq> None"
        and v: "?valid = map (\<lambda>r. the (MolFromSmiles e r)) (fragments (fst fb))" by simp_all
      have "?sms = remdups (map (\<lambda>r. MolToSmiles e (the (MolFromSmiles e r))) (fragments (fst fb)))"
        unfolding v by (simp add: comp_def)
      moreover have "sort ?sms \<noteq> []" using True by (metis length_sort length_0_conv)
      ultimately show ?thesis using 1 all by (intro bexI[of _ fb]) simp_all
    next
      case 2
      from Cons.IH[OF this] show ?thesis by auto
    qed
  qed
qed

lemma collect_answers_discards:
  assumes "\<exists>r \<in> set (fragments (fst fb)). MolFromSmiles e r = None"
  shows "collect_answers e (fb # fbs) aim_size = collect_answers e fbs aim_size"
proof (cases "aim_size = 0")
  case True
  then show ?thesis by (simp add: collect_answers_zero)
next
  case False
  have "length (List.map_filter (MolFromSmiles e) (fragments (fst fb))) \<noteq> length (fragments (fst fb))"
    using assms map_filter_all[of "MolFromSmiles e" "fragments (fst fb)"] by blast
  with False show ?thesis by (simp add: Let_def)
qed


text \<open>When the decoder returns: the predictor answers, the sort permutes, the vocabulary fits.\<close>

lemma later_rows_defined:
  assumes "\<forall>res. get_output_probs e product res \<noteq> None" and "length scs = length ls"
  shows "\<exists>rows. later_rows e product ls scs k = Inr rows \<and> length rows = length ls * vocab_size e
           \<and> (\<forall>r \<in> set rows. \<exists>i<length ls. \<exists>j<vocab_size e. snd r = pack_index (k + i) j)"
  using assms(2)
proof (induction ls arbitrary: scs k)
  case Nil
  then show ?case by simp
next
  case (Cons l ls)
  from Cons.prems obtain sc scs' where scs: "scs = sc # scs'" "length scs' = length ls"
    by (cases scs) auto
  from assms(1) obtain prob where p: "get_output_probs e product l = Some prob" by auto
  from Cons.IH[OF scs(2), of "Suc k"] obtain rs where
    rs: "later_rows e product ls scs' (Suc k) = Inr rs" "length rs = length ls * vocab_size e"
    "\<forall>r \<in> set rs. \<exists>i<length ls. \<exists>j<vocab_size e. snd r = pack_index (Suc k + i) j" by blast
  have "\<forall>r \<in> set (line_rows prob (vocab_size e) sc k @ rs).
          \<exists>i<length (l # ls). \<exists>j<vocab_size e. snd r = pack_index (k + i) j"
  proof
    fix r assume "r \<in> set (line_rows prob (vocab_size e) sc k @ rs)"
    then consider "r \<in> set (line_rows prob (vocab_size e) sc k)" | "r \<in> set rs" by auto
    then show "\<exists>i<length (l # ls). \<exists>j<vocab_size e. snd r = pack_index (k + i) j"
    proof cases
      case 1
      then obtain j where "j < vocab_size e" "snd r = pack_index k j" by (auto simp: line_rows_def)
      then show ?thesis by (intro exI[of _ 0]) auto
    next
      case 2
      with rs(3) obtain i j where "i < length ls" "j < vocab_size e" "snd r = pack_index (Suc k + i) j" by blast
      then show ?thesis by (intro exI[of _ "Suc i"]) auto
    qed
  qed
  with p scs rs show ?case by (simp add: line_rows_def)
qed

lemma select_rows_defined:
  assumes "\<forall>i \<in> set is. i < length ranked"
    and "\<forall>r \<in> set ranked. ix_to_char e (symbol_index (snd r)) \<noteq> None \<and> beam_index (snd r) < length lines"
    and "length nb = length ns"
  shows "\<exists>fb' os' nb' ns'. select_rows e lines ranked is (fb, os, nb, ns) = Inr (fb', os', nb', ns')
           \<and> length nb' = length ns' \<and> int (length nb') - os' = int (length nb) + int (length is) - os"
  using assms(1,3)
proof (induction "is" arbitrary: fb os nb ns)
  case Nil
  then show ?case by simp
next
  case (Cons i rest)
  from Cons.prems(1) have inb: "i < length ranked" and rest: "\<forall>i \<in> set rest. i < length ranked" by simp_all
  from inb assms(2) obtain ch where ch: "ix_to_char e (symbol_index (snd (ranked ! i))) = Some ch"
    and bi: "beam_index (snd (ranked ! i)) < length lines" by (metis nth_mem option.exhaust)
  let ?s = "lines ! beam_index (snd (ranked ! i)) @ [ch]"
  show ?case
  proof (cases "ch = CHR ''$''")
    case True
    let ?fb = "if ?s \<noteq> ''$'' then fb @ [(?s, fst (ranked ! i))] else fb"
    from Cons.IH[OF rest Cons.prems(2), of ?fb "os - 1"] obtain fb' os' nb' ns' where
      "select_rows e lines ranked rest (?fb, os - 1, nb, ns) = Inr (fb', os', nb', ns')"
      "length nb' = length ns'" "int (length nb') - os' = int (length nb) + int (length rest) - (os - 1)" by blast
    with inb ch bi True show ?thesis by (auto split: if_splits)
  next
    case False
    have "length (nb @ [?s]) = length (ns @ [fst (ranked ! i)])" using Cons.prems(2) by simp
    from Cons.IH[OF rest this, of fb os] obtain fb' os' nb' ns' where
      "select_rows e lines ranked rest (fb, os, nb @ [?s], ns @ [fst (ranked ! i)]) = Inr (fb', os', nb', ns')"
      "length nb' = length ns'" "int (length nb') - os' = int (length (nb @ [?s])) + int (length rest) - os" by blast
    with inb ch bi False show ?thesis by auto
  qed
qed

lemma select_rows_object_size:
  "select_rows e lines ranked is (fb, os, nb, ns) = Inr (fb', os', nb', ns') \<Longrightarrow> os' \<le> os"
proof (induction "is" arbitrary: fb os nb ns)
  case Nil
  then show ?case by simp
next
  case (Cons i rest)
  then show ?case by (fastforce split: if_splits option.splits)
qed

lemma beam_steps_defined:
  assumes V: "vocab_size e \<le> 100"
    and ix: "\<forall>j<vocab_size e. ix_to_char e j \<noteq> None"
    and pr: "\<forall>res. get_output_probs e product res \<noteq> None"
    and perm: "\<forall>rows. mset (argsort e rows) = mset rows"
    and inv: "length scores = length lines" "os = int (length lines)" "length lines \<le> vocab_size e"
  shows "\<exists>st'. beam_steps e product steps (lines, scores, fb, os) = Inr st'"
  using inv
proof (induction steps arbitrary: lines scores fb os)
  case Nil
  then show ?case by simp
next
  case (Cons step steps)
  have "\<exists>rows. build_result e product step lines scores = Inr rows
          \<and> length lines \<le> length rows
          \<and> (\<forall>r \<in> set rows. ix_to_char e (symbol_index (snd r)) \<noteq> None
                \<and> (lines \<noteq> [] \<longrightarrow> beam_index (snd r) < length lines))"
  proof (cases "step = 0")
    case True
    from pr obtain prob where p: "get_output_probs e product [] = Some prob" by auto
    have "\<forall>r \<in> set (first_rows prob (vocab_size e)). ix_to_char e (symbol_index (snd r)) \<noteq> None
                \<and> (lines \<noteq> [] \<longrightarrow> beam_index (snd r) < length lines)"
      using V ix by (auto simp: first_rows_def symbol_index_def beam_index_def)
    with True p Cons.prems(3) show ?thesis by (simp add: build_result_def first_rows_def)
  next
    case False
    from later_rows_defined[OF pr Cons.prems(1), of 0] obtain rows where
      rows: "later_rows e product lines scores 0 = Inr rows" "length rows = length lines * vocab_size e"
      "\<forall>r \<in> set rows. \<exists>i<length lines. \<exists>j<vocab_size e. snd r = pack_index (0 + i) j" by blast
    have "\<forall>r \<in> set rows. ix_to_char e (symbol_index (snd r)) \<noteq> None
                \<and> (lines \<noteq> [] \<longrightarrow> beam_index (snd r) < length lines)"
    proof
      fix r assume "r \<in> set rows"
      with rows(3) obtain i j where ij: "i < length lines" "j < vocab_size e" "snd r = pack_index i j" by auto
      from ij(2) V have "j < 100" by simp
      then have "symbol_index (snd r) = j" "beam_index (snd r) = i"
        using ij(3) by (simp_all add: symbol_index_def beam_index_def pack_index_def)
      with ij ix show "ix_to_char e (symbol_index (snd r)) \<noteq> None
                \<and> (lines \<noteq> [] \<longrightarrow> beam_index (snd r) < length lines)" by simp
    qed
    moreover have "length lines \<le> length rows"
    proof (cases "vocab_size e = 0")
      case True
      with Cons.prems(3) show ?thesis by simp
    next
      case False
      then show ?thesis using rows(2) by simp
    qed
    ultimately show ?thesis using False rows(1) by (simp add: build_result_def)
  qed
  then obtain rows where rows: "build_result e product step lines scores = Inr rows"
    "length lines \<le> length rows"
    "\<forall>r \<in> set rows. ix_to_char e (symbol_index (snd r)) \<noteq> None
        \<and> (lines \<noteq> [] \<longrightarrow> beam_index (snd r) < length lines)" by blast
  show ?case
  proof (cases "lines = []")
    case True
    with rows(1) show ?thesis by simp
  next
    case False
    let ?ranked = "argsort e rows"
    from perm have m: "mset ?ranked = mset rows" by simp
    then have len: "length ?ranked = length rows" by (metis size_mset)
    from m have st: "set ?ranked = set rows" by (metis set_mset_mset)
    have a1: "\<forall>i \<in> set [0..<nat os]. i < length ?ranked"
      using Cons.prems(2) rows(2) len by auto
    have a2: "\<forall>r \<in> set ?ranked. ix_to_char e (symbol_index (snd r)) \<noteq> None \<and> beam_index (snd r) < length lines"
      using rows(3) st False by auto
    have l0: "length ([]::string list) = length ([]::real list)" by simp
    from select_rows_defined[OF a1 a2 l0, of fb os] obtain fb' os' nb' ns' where
      sel: "select_rows e lines ?ranked [0..<nat os] (fb, os, [], []) = Inr (fb', os', nb', ns')"
      and l: "length nb' = length ns'"
      and c: "int (length nb') - os' = int (length ([]::string list)) + int (length [0..<nat os]) - os" by blast
    from c Cons.prems(2) have os': "os' = int (length nb')" by simp
    have le: "length nb' \<le> vocab_size e"
      using select_rows_object_size[OF sel] os' Cons.prems(2,3) by simp
    show ?thesis
    proof (cases "nb' = []")
      case True
      with rows(1) False sel show ?thesis by simp
    next
      case nonempty: False
      from Cons.IH[OF l[symmetric] os' le, of fb'] obtain st' where
        "beam_steps e product steps (nb', ns', fb', os') = Inr st'" by blast
      with rows(1) False sel nonempty show ?thesis by (cases st') auto
    qed
  qed
qed


lemma get_beam_defined:
  assumes "1 \<le> bsize" "vocab_size e \<le> 100" "nat bsize \<le> vocab_size e"
    and "\<forall>j<vocab_size e. ix_to_char e j \<noteq> None"
    and "\<forall>res. get_output_probs e product res \<noteq> None"
    and "\<forall>rows. mset (argsort e rows) = mset rows"
  shows "\<exists>answer. get_beam e product bsize = Inr answer"
proof -
  have "\<exists>st'. beam_steps e product [0..<nat (max_length e)]
          (replicate (nat bsize) [], replicate (nat bsize) 0, [], bsize) = Inr st'"
    using assms by (intro beam_steps_defined) simp_all
  then obtain lines scores fb os where
    "beam_steps e product [0..<nat (max_length e)]
          (replicate (nat bsize) [], replicate (nat bsize) 0, [], bsize) = Inr (lines, scores, fb, os)"
    by (metis prod_cases4)
  then show ?thesis by (simp add: get_beam_def)
qed

text \<open>
  C4. For a beam width \<open>B \<ge> 1\<close>: when the decoder returns, it returns at most \<open>B\<close>
  candidates, and each of them is the sorted set of the canonical strings of the fragments
  of a finished string all of whose fragments parse (and it has at least one reactant). A
  finished string with a fragment that does not parse adds nothing to the answer. The
  decoder does return when the vocabulary has at most 100 and at least \<open>B\<close> symbols, every
  symbol index has its character, the predictor answers every query and the sort of the
  rows returns a permutation of them.
\<close>

theorem beam_answers_bounded_and_valid:
  assumes "1 \<le> bsize"
  shows "(get_beam e product bsize = Inr answer \<longrightarrow>
            length answer \<le> nat bsize
            \<and> (\<forall>c \<in> set answer. \<exists>s.
                  (\<forall>r \<in> set (fragments s). MolFromSmiles e r \<noteq> None)
                  \<and> fst c = sort (remdups (map (\<lambda>r. MolToSmiles e (the (MolFromSmiles e r))) (fragments s)))
                  \<and> fst c \<noteq> []))
       \<and> ((\<exists>r \<in> set (fragments (fst fb)). MolFromSmiles e r = None) \<longrightarrow>
            collect_answers e (fb # fbs) aim_size = collect_answers e fbs aim_size)
       \<and> (vocab_size e \<le> 100 \<longrightarrow> nat bsize \<le> vocab_size e \<longrightarrow>
            (\<forall>j<vocab_size e. ix_to_char e j \<noteq> None) \<longrightarrow>
            (\<forall>res. get_output_probs e product res \<noteq> None) \<longrightarrow>
            (\<forall>rows. mset (argsort e rows) = mset rows) \<longrightarrow>
            (\<exists>returned. get_beam e product bsize = Inr returned))"
proof (intro conjI impI)
  assume g: "get_beam e product bsize = Inr answer"
  then obtain fbs' where a: "answer = collect_answers e fbs' bsize"
    by (auto simp: get_beam_def split: sum.splits)
  from assms have "0 \<le> bsize" by simp
  then show "length answer \<le> nat bsize" unfolding a by (rule collect_answers_length)
  show "\<forall>c \<in> set answer. \<exists>s.
                  (\<forall>r \<in> set (fragments s). MolFromSmiles e r \<noteq> None)
                  \<and> fst c = sort (remdups (map (\<lambda>r. MolToSmiles e (the (MolFromSmiles e r))) (fragments s)))
                  \<and> fst c \<noteq> []"
  proof
    fix c assume "c \<in> set answer"
    then have "c \<in> set (collect_answers e fbs' bsize)" using a by simp
    from collect_answers_valid[OF this] show "\<exists>s.
                  (\<forall>r \<in> set (fragments s). MolFromSmiles e r \<noteq> None)
                  \<and> fst c = sort (remdups (map (\<lambda>r. MolToSmiles e (the (MolFromSmiles e r))) (fragments s)))
                  \<and> fst c \<noteq> []" by blast
  qed
next
  assume "\<exists>r \<in> set (fragments (fst fb)). MolFromSmiles e r = None"
  then show "collect_answers e (fb # fbs) aim_size = collect_answers e fbs aim_size"
    by (rule collect_answers_discards)
next
  assume "vocab_size e \<le> 100" "nat bsize \<le> vocab_size e" "\<forall>j<vocab_size e. ix_to_char e j \<noteq> None"
    "\<forall>res. get_output_probs e product res \<noteq> None" "\<forall>rows. mset (argsort e rows) = mset rows"
  with assms show "\<exists>returned. get_beam e product bsize = Inr returned"
    by (rule get_beam_defined)
qed

lemma toy_get_beam: "get_beam toy_env ''CO'' 2 = Inr [([''C''], 1 / 2)]"
  by (simp add: get_beam_def build_result_def first_rows_def line_rows_def pack_index_def
      symbol_index_def beam_index_def normalize_def fragments_def List.map_filter_def Let_def
      toy_env_def toy_probs_def log10_tenth upt_rec)


lemma toy_unparsable_fragment: "\<exists>r \<in> set (fragments (fst (''X$'', 1 :: real))). MolFromSmiles toy_env r = None"
  by (simp add: fragments_def toy_env_def)

theorem beam_answers_bounded_and_valid_witness:
  "(1::int) \<le> 2
   \<and> get_beam toy_env ''CO'' 2 = Inr [([''C''], 1 / 2)]
   \<and> length [([''C''], 1 / 2 :: real)] \<le> nat 2
   \<and> (\<exists>s. (\<forall>r \<in> set (fragments s). MolFromSmiles toy_env r \<noteq> None)
          \<and> [''C''] = sort (remdups (map (\<lambda>r. MolToSmiles toy_env (the (MolFromSmiles toy_env r))) (fragments s))))
   \<and> (\<exists>r. r \<in> set (fragments ''X$'') \<and> MolFromSmiles toy_env r = None)
   \<and> collect_answers toy_env [(''X$'', 1), (''C$'', 1 / 2)] 2 = collect_answers toy_env [(''C$'', 1 / 2)] 2
   \<and> vocab_size toy_env \<le> 100
   \<and> nat 2 \<le> vocab_size toy_env
   \<and> vocab_size toy_env = 2 \<and> ix_to_char toy_env 0 \<noteq> None \<and> ix_to_char toy_env 1 \<noteq> None
   \<and> (\<forall>res. get_output_probs toy_env ''CO'' res \<noteq> None)
   \<and> (\<forall>rows. mset (argsort toy_env rows) = mset rows)
   \<and> (\<exists>returned. get_beam toy_env ''CO'' 2 = Inr returned)"
proof -
  have b: "(1::int) \<le> 2" by simp
  note th = beam_answers_bounded_and_valid[OF b, of toy_env "''CO''" "[([''C''], 1 / 2)]" "(''X$'', 1)" "[(''C$'', 1 / 2)]" 2]
  from th[THEN conjunct1, rule_format, OF toy_get_beam]
  have len: "length [([''C''], 1 / 2 :: real)] \<le> nat 2"
    and val: "\<forall>c \<in> set [([''C''], 1 / 2 :: real)]. \<exists>s.
                  (\<forall>r \<in> set (fragments s). MolFromSmiles toy_env r \<noteq> None)
                  \<and> fst c = sort (remdups (map (\<lambda>r. MolToSmiles toy_env (the (MolFromSmiles toy_env r))) (fragments s)))
                  \<and> fst c \<noteq> []"
    by blast+
  from bspec[OF val, of "([''C''], 1 / 2)"]
  have v: "\<exists>s. (\<forall>r \<in> set (fragments s). MolFromSmiles toy_env r \<noteq> None)
          \<and> [''C''] = sort (remdups (map (\<lambda>r. MolToSmiles toy_env (the (MolFromSmiles toy_env r))) (fragments s)))"
    by auto
  from th[THEN conjunct2, THEN conjunct1, rule_format, OF toy_unparsable_fragment]
  have d: "collect_answers toy_env [(''X$'', 1), (''C$'', 1 / 2)] 2 = collect_answers toy_env [(''C$'', 1 / 2)] 2" .
  have u: "\<exists>r. r \<in> set (fragments ''X$'') \<and> MolFromSmiles toy_env r = None"
    using toy_unparsable_fragment by auto
  have w1: "vocab_size toy_env \<le> 100" and w2: "nat 2 \<le> vocab_size toy_env"
    and w3: "vocab_size toy_env = 2" "ix_to_char toy_env 0 \<noteq> None" "ix_to_char toy_env 1 \<noteq> None"
    by (simp_all add: toy_env_def)
  have w4: "\<forall>j<vocab_size toy_env. ix_to_char toy_env j \<noteq> None"
    by (simp add: toy_env_def less_Suc_eq numeral_2_eq_2)
  have w5: "\<forall>res. get_output_probs toy_env ''CO'' res \<noteq> None"
    by (simp add: toy_env_def toy_probs_def)
  have w6: "\<forall>rows. mset (argsort toy_env rows) = mset rows"
    by (simp add: toy_env_def)
  from th[THEN conjunct2, THEN conjunct2] w1 w2 w4 w5 w6
  have r: "\<exists>returned. get_beam toy_env ''CO'' 2 = Inr returned" by blast
  from b toy_get_beam len v u d w1 w2 w3 w5 w6 r show ?thesis by (intro conjI)
qed

text \<open>
  Every candidate that the decoder returns has at least one reactant: the loop that builds
  the answer keeps a finished string only when its set of canonical strings is not empty.
  So no run of \<open>get_route_result\<close> expands a molecule with a candidate without
  reactants.
\<close>

lemma get_beam_reactants_nonempty:
  assumes "get_beam e product bsize = Inr answer" and "c \<in> set answer"
  shows "fst c \<noteq> []"
proof -
  from assms(1) obtain fbs where "answer = collect_answers e fbs bsize"
    by (auto simp: get_beam_def split: sum.splits)
  with assms(2) have "c \<in> set (collect_answers e fbs bsize)" by simp
  from collect_answers_valid[OF this] show ?thesis by blast
qed

lemma get_beam_never_empty_candidate: "get_beam e product bsize \<noteq> Inr [([], cost)]"
  using get_beam_reactants_nonempty[of e product bsize "[([], cost)]" "([], cost)"] by auto

section \<open>The expansion of a node over an explicit store\<close>

text \<open>
  In Python a node holds references: \<open>routes_info\<close> is a list object holding references to
  dictionaries, each of which holds a reference to a list of strings (\<open>route\<close>) and an integer
  (\<open>depth\<close>); \<open>starting_materials\<close> is a list of strings. The expansion works on these objects
  with \<open>deepcopy\<close>, \<open>pop(0)\<close>, \<open>append\<close> and \<open>+\<close>. Here the objects live in a store with one
  family of cells for each kind of object (an object is a kind and an address); a node, an
  answer and the loop variables \<open>iter_routes\<close> and \<open>iter_starting_materials\<close> hold addresses.
  \<open>deepcopy\<close>, \<open>+\<close> and a list or dictionary display allocate new cells; \<open>pop(0)\<close> and \<open>append\<close>
  change the cell they are called on. Strings and numbers are values, and so is the list
  that \<open>sorted\<close> returns, which is only read. The one-element list that
  \<open>[{...}] + iter_routes\<close> builds and drops at once is not allocated. The definitions over
  the store carry the prefix \<open>ref_\<close>, to tell them from those over values above.
\<close>

type_synonym addr = nat

record heap =
  list_cells :: "addr \<Rightarrow> addr list"
  dict_cells :: "addr \<Rightarrow> addr \<times> int"
  str_cells :: "addr \<Rightarrow> string list"
  next_free :: addr

record ref_node =
  ref_score :: real
  ref_routes_info :: addr
  ref_starting_materials :: addr

record ref_answer =
  ref_answer_score :: real
  ref_answer_materials :: addr

record ref_state =
  ref_answer_set :: "ref_answer list"
  ref_nxt_queue :: "ref_node list"
  store :: heap

definition new_strs :: "string list \<Rightarrow> heap \<Rightarrow> addr \<times> heap" where
  "new_strs xs h =
     (next_free h, h\<lparr>str_cells := (str_cells h)(next_free h := xs), next_free := Suc (next_free h)\<rparr>)"

definition new_dict :: "addr \<Rightarrow> int \<Rightarrow> heap \<Rightarrow> addr \<times> heap" where
  "new_dict r dep h =
     (next_free h, h\<lparr>dict_cells := (dict_cells h)(next_free h := (r, dep)), next_free := Suc (next_free h)\<rparr>)"

definition new_list :: "addr list \<Rightarrow> heap \<Rightarrow> addr \<times> heap" where
  "new_list ds h =
     (next_free h, h\<lparr>list_cells := (list_cells h)(next_free h := ds), next_free := Suc (next_free h)\<rparr>)"

text \<open>
  \<open>deepcopy\<close> keeps a memo of the objects it has copied in the current pass, so that an
  object met twice is copied once: one memo for the dictionaries and one for the route
  lists. \<open>deepcopy(routes_info)\<close> starts with empty memos.
\<close>

type_synonym memo = "(addr \<times> addr) list"

definition deepcopy_route :: "addr \<Rightarrow> memo \<Rightarrow> heap \<Rightarrow> addr \<times> memo \<times> heap" where
  "deepcopy_route r ms h =
     (case map_of ms r of
        Some r' \<Rightarrow> (r', ms, h)
      | None \<Rightarrow> (case new_strs (str_cells h r) h of (r', h') \<Rightarrow> (r', (r, r') # ms, h')))"

definition deepcopy_dict :: "addr \<Rightarrow> memo \<Rightarrow> memo \<Rightarrow> heap \<Rightarrow> addr \<times> memo \<times> memo \<times> heap" where
  "deepcopy_dict d md ms h =
     (case map_of md d of
        Some d' \<Rightarrow> (d', md, ms, h)
      | None \<Rightarrow>
          (case dict_cells h d of (r, dep) \<Rightarrow>
             (case deepcopy_route r ms h of (r', ms', h') \<Rightarrow>
                (case new_dict r' dep h' of (d', h'') \<Rightarrow> (d', (d, d') # md, ms', h'')))))"

fun deepcopy_dicts :: "addr list \<Rightarrow> memo \<Rightarrow> memo \<Rightarrow> heap \<Rightarrow> addr list \<times> memo \<times> memo \<times> heap" where
  "deepcopy_dicts [] md ms h = ([], md, ms, h)"
| "deepcopy_dicts (d # ds) md ms h =
     (case deepcopy_dict d md ms h of (d', md', ms', h') \<Rightarrow>
        (case deepcopy_dicts ds md' ms' h' of (ds', md'', ms'', h'') \<Rightarrow> (d' # ds', md'', ms'', h'')))"

definition deepcopy_routes :: "addr \<Rightarrow> heap \<Rightarrow> addr \<times> heap" where
  "deepcopy_routes a h =
     (case deepcopy_dicts (list_cells h a) [] [] h of (ds, md, ms, h') \<Rightarrow> new_list ds h')"

definition deepcopy_strs :: "addr \<Rightarrow> heap \<Rightarrow> addr \<times> heap" where
  "deepcopy_strs a h = new_strs (str_cells h a) h"

definition pop_first :: "addr \<Rightarrow> heap \<Rightarrow> py_error + heap" where
  "pop_first a h =
     (case list_cells h a of
        [] \<Rightarrow> Inl IndexError
      | d # ds \<Rightarrow> Inr (h\<lparr>list_cells := (list_cells h)(a := ds)\<rparr>))"

definition append_str :: "addr \<Rightarrow> string \<Rightarrow> heap \<Rightarrow> heap" where
  "append_str a x h = h\<lparr>str_cells := (str_cells h)(a := str_cells h a @ [x])\<rparr>"

text \<open>
  The loop over the reactants; its state is
  (estimation_cost, iter_routes, iter_starting_materials, store). \<open>first_route\<close> is the
  address of the route list of the node's first pending expansion.
\<close>

type_synonym ref_part_state = "real \<times> addr \<times> addr \<times> heap"

definition ref_partition_reactant ::
  "'m env \<Rightarrow> addr \<Rightarrow> int \<Rightarrow> string \<Rightarrow> ref_part_state \<Rightarrow> py_error + ref_part_state" where
  "ref_partition_reactant e first_route d reactant st =
     (case st of (estimation_cost, iter_routes, iter_starting_materials, h) \<Rightarrow>
        (case check_reactant_is_material e reactant of
           Inl err \<Rightarrow> Inl err
         | Inr is_material \<Rightarrow>
             (if is_material then
                Inr (estimation_cost, iter_routes, iter_starting_materials,
                     append_str iter_starting_materials reactant h)
              else
                (case value_fn e reactant of
                   Inl err \<Rightarrow> Inl err
                 | Inr v \<Rightarrow>
                     (case new_strs (str_cells h first_route @ [reactant]) h of (r, h1) \<Rightarrow>
                        (case new_dict r (d + 1) h1 of (dict, h2) \<Rightarrow>
                           (case new_list (dict # list_cells h2 iter_routes) h2 of (iter_routes', h3) \<Rightarrow>
                              Inr (estimation_cost + v, iter_routes', iter_starting_materials, h3))))))))"

text \<open>The body of \<open>for expansion_solution in get_beam(...)\<close>.\<close>

definition ref_expand_solution ::
  "'m env \<Rightarrow> ref_node \<Rightarrow> addr \<Rightarrow> int \<Rightarrow> string \<Rightarrow> string list \<times> real \<Rightarrow> ref_state \<Rightarrow> py_error + ref_state" where
  "ref_expand_solution e item first_route d expansion_mol expansion_solution st =
     (case deepcopy_routes (ref_routes_info item) (store st) of (iter_routes, h1) \<Rightarrow>
     (case pop_first iter_routes h1 of
        Inl err \<Rightarrow> Inl err
      | Inr h2 \<Rightarrow>
     (case deepcopy_strs (ref_starting_materials item) h2 of (iter_starting_materials, h3) \<Rightarrow>
     (let expansion_reactants = sort (fst expansion_solution);
          reaction_cost = snd expansion_solution
      in case check_reactants_are_material e expansion_reactants of
        Inl err \<Rightarrow> Inl err
      | Inr are_material \<Rightarrow>
          (if are_material \<and> length (list_cells h3 iter_routes) = 0 then
             (case value_fn e expansion_mol of
                Inl err \<Rightarrow> Inl err
              | Inr v \<Rightarrow>
                  (case new_strs (str_cells h3 iter_starting_materials @ expansion_reactants) h3 of
                     (joined, h4) \<Rightarrow>
                       Inr (st\<lparr>ref_answer_set := ref_answer_set st @
                                [\<lparr>ref_answer_score = ref_score item + reaction_cost - v,
                                  ref_answer_materials = joined\<rparr>],
                              store := h4\<rparr>)))
           else
             (case for_each (ref_partition_reactant e first_route d) expansion_reactants
                     (0, iter_routes, iter_starting_materials, h3) of
                Inl err \<Rightarrow> Inl err
              | Inr (estimation_cost, iter_routes', iter_starting_materials', h4) \<Rightarrow>
                  (case value_fn e expansion_mol of
                     Inl err \<Rightarrow> Inl err
                   | Inr v \<Rightarrow>
                       Inr (st\<lparr>ref_nxt_queue := ref_nxt_queue st @
                                [\<lparr>ref_score = ref_score item + reaction_cost + estimation_cost - v,
                                  ref_routes_info = iter_routes',
                                  ref_starting_materials = iter_starting_materials'\<rparr>],
                              store := h4\<rparr>))))))))"

text \<open>The body of \<open>for item in queue\<close>.\<close>

definition ref_expand_item :: "decoder \<Rightarrow> 'm env \<Rightarrow> int \<Rightarrow> ref_node \<Rightarrow> ref_state \<Rightarrow> py_error + ref_state" where
  "ref_expand_item gb e max_depth item st =
     (case list_cells (store st) (ref_routes_info item) of
        [] \<Rightarrow> Inl IndexError
      | first_route_info # others \<Rightarrow>
          (case dict_cells (store st) first_route_info of (first_route, d) \<Rightarrow>
             (if d > max_depth then Inr st
              else if str_cells (store st) first_route = [] then Inl IndexError
              else
                (case gb (last (str_cells (store st) first_route)) (beam_size e) of
                   Inl err \<Rightarrow> Inl err
                 | Inr solutions \<Rightarrow>
                     for_each
                       (ref_expand_solution e item first_route d (last (str_cells (store st) first_route)))
                       solutions st))))"

text \<open>What a node and an answer hold, read through the store.\<close>

definition routes_of :: "heap \<Rightarrow> addr \<Rightarrow> route_info list" where
  "routes_of h a =
     map (\<lambda>d. \<lparr>route = str_cells h (fst (dict_cells h d)), depth = snd (dict_cells h d)\<rparr>) (list_cells h a)"

definition node_of :: "heap \<Rightarrow> ref_node \<Rightarrow> node" where
  "node_of h n =
     \<lparr>score = ref_score n, routes_info = routes_of h (ref_routes_info n),
      starting_materials = str_cells h (ref_starting_materials n)\<rparr>"

definition answer_of :: "heap \<Rightarrow> ref_answer \<Rightarrow> answer" where
  "answer_of h a =
     \<lparr>answer_score = ref_answer_score a, answer_materials = str_cells h (ref_answer_materials a)\<rparr>"

text \<open>
  \<open>kept n h h'\<close>: the store \<open>h'\<close> has at least the cells of \<open>h\<close>, and every cell below \<open>n\<close>
  holds in \<open>h'\<close> what it holds in \<open>h\<close>.
\<close>

definition kept :: "addr \<Rightarrow> heap \<Rightarrow> heap \<Rightarrow> bool" where
  "kept n h h' \<longleftrightarrow>
     next_free h \<le> next_free h'
     \<and> list_all (\<lambda>a. list_cells h' a = list_cells h a \<and> dict_cells h' a = dict_cells h a
                       \<and> str_cells h' a = str_cells h a) [0..<n]"

text \<open>
  \<open>dict_from lo h d\<close>: the dictionary at \<open>d\<close> and its route list are cells of \<open>h\<close> allocated at
  \<open>lo\<close> or later; \<open>routes_from lo h a\<close>: so are the list at \<open>a\<close> and all its dictionaries.
  With \<open>lo = 0\<close> they say that the objects are allocated.
\<close>

definition dict_from :: "addr \<Rightarrow> heap \<Rightarrow> addr \<Rightarrow> bool" where
  "dict_from lo h d \<longleftrightarrow>
     lo \<le> d \<and> d < next_free h \<and> lo \<le> fst (dict_cells h d) \<and> fst (dict_cells h d) < next_free h"

definition routes_from :: "addr \<Rightarrow> heap \<Rightarrow> addr \<Rightarrow> bool" where
  "routes_from lo h a \<longleftrightarrow> lo \<le> a \<and> a < next_free h \<and> list_all (dict_from lo h) (list_cells h a)"

definition strs_from :: "addr \<Rightarrow> heap \<Rightarrow> addr \<Rightarrow> bool" where
  "strs_from lo h a \<longleftrightarrow> lo \<le> a \<and> a < next_free h"

definition node_from :: "addr \<Rightarrow> heap \<Rightarrow> ref_node \<Rightarrow> bool" where
  "node_from lo h n \<longleftrightarrow> routes_from lo h (ref_routes_info n) \<and> strs_from lo h (ref_starting_materials n)"

definition answer_from :: "addr \<Rightarrow> heap \<Rightarrow> ref_answer \<Rightarrow> bool" where
  "answer_from lo h a \<longleftrightarrow> strs_from lo h (ref_answer_materials a)"

text \<open>
  A store with one node: two pending expansions (paths CC, CO and CC, N, both at depth 1)
  and one resolved material.
\<close>

definition toy_store :: heap where
  "toy_store =
     \<lparr>list_cells = (\<lambda>a. [])(4 := [1, 3]),
      dict_cells = (\<lambda>a. (0, 0))(1 := (0, 1), 3 := (2, 1)),
      str_cells = (\<lambda>a. [])(0 := [''CC'', ''CO''], 2 := [''CC'', ''N''], 5 := [''C'']),
      next_free = 6\<rparr>"

definition toy_parent :: ref_node where
  "toy_parent = \<lparr>ref_score = 2, ref_routes_info = 4, ref_starting_materials = 5\<rparr>"

definition toy_ref_state :: ref_state where
  "toy_ref_state = \<lparr>ref_answer_set = [], ref_nxt_queue = [], store = toy_store\<rparr>"


subsection \<open>Cells that exist before an expansion are not written\<close>

lemma kept_iff:
  "kept n h h' \<longleftrightarrow> next_free h \<le> next_free h'
     \<and> (\<forall>a<n. list_cells h' a = list_cells h a \<and> dict_cells h' a = dict_cells h a \<and> str_cells h' a = str_cells h a)"
  by (auto simp: kept_def list_all_iff)

lemma kept_refl: "kept n h h"
  by (simp add: kept_iff)

lemma kept_trans: "kept n h1 h2 \<Longrightarrow> kept n h2 h3 \<Longrightarrow> kept n h1 h3"
  by (auto simp: kept_iff)

lemma kept_mono: "kept n h h' \<Longrightarrow> m \<le> n \<Longrightarrow> kept m h h'"
  by (auto simp: kept_iff)

lemma kept_step: "kept (next_free h1) h1 h2 \<Longrightarrow> kept (next_free h2) h2 h3 \<Longrightarrow> kept (next_free h1) h1 h3"
  by (auto simp: kept_iff)

lemma new_strs_alloc:
  "new_strs xs h = (a, h') \<Longrightarrow>
     kept (next_free h) h h' \<and> a = next_free h \<and> next_free h' = Suc (next_free h)"
  by (auto simp: new_strs_def kept_iff)

lemma new_dict_alloc:
  "new_dict r dep h = (a, h') \<Longrightarrow>
     kept (next_free h) h h' \<and> a = next_free h \<and> next_free h' = Suc (next_free h)
     \<and> dict_cells h' a = (r, dep)"
  by (auto simp: new_dict_def kept_iff)

lemma new_list_alloc:
  "new_list ds h = (a, h') \<Longrightarrow>
     kept (next_free h) h h' \<and> a = next_free h \<and> next_free h' = Suc (next_free h)
     \<and> list_cells h' a = ds \<and> dict_cells h' = dict_cells h"
  by (auto simp: new_list_def kept_iff)

lemma pop_first_frame:
  "pop_first a h = Inr h' \<Longrightarrow>
     kept a h h' \<and> next_free h' = next_free h \<and> dict_cells h' = dict_cells h \<and> str_cells h' = str_cells h
     \<and> set (list_cells h' a) \<subseteq> set (list_cells h a)
     \<and> (\<forall>b. b \<noteq> a \<longrightarrow> list_cells h' b = list_cells h b)"
  by (auto simp: pop_first_def kept_iff split: list.splits)

lemma append_str_frame:
  "kept a h (append_str a x h) \<and> next_free (append_str a x h) = next_free h
     \<and> dict_cells (append_str a x h) = dict_cells h \<and> list_cells (append_str a x h) = list_cells h"
  by (auto simp: append_str_def kept_iff)

lemma dict_from_kept: "dict_from lo h d \<Longrightarrow> kept (next_free h) h h' \<Longrightarrow> dict_from lo h' d"
  by (auto simp: dict_from_def kept_iff)

lemma routes_from_kept: "routes_from lo h a \<Longrightarrow> kept (next_free h) h h' \<Longrightarrow> routes_from lo h' a"
  by (auto simp: routes_from_def list_all_iff kept_iff dict_from_def)

lemma strs_from_kept: "strs_from lo h a \<Longrightarrow> kept (next_free h) h h' \<Longrightarrow> strs_from lo h' a"
  by (auto simp: strs_from_def kept_iff)

lemma node_from_kept: "node_from lo h n \<Longrightarrow> kept (next_free h) h h' \<Longrightarrow> node_from lo h' n"
  by (auto simp: node_from_def intro: routes_from_kept strs_from_kept)

lemma answer_from_kept: "answer_from lo h a \<Longrightarrow> kept (next_free h) h h' \<Longrightarrow> answer_from lo h' a"
  by (auto simp: answer_from_def intro: strs_from_kept)

lemma dict_from_mono: "dict_from lo h d \<Longrightarrow> lo' \<le> lo \<Longrightarrow> dict_from lo' h d"
  by (auto simp: dict_from_def)

lemma routes_from_mono: "routes_from lo h a \<Longrightarrow> lo' \<le> lo \<Longrightarrow> routes_from lo' h a"
  by (auto simp: routes_from_def list_all_iff dict_from_def)

lemma strs_from_mono: "strs_from lo h a \<Longrightarrow> lo' \<le> lo \<Longrightarrow> strs_from lo' h a"
  by (auto simp: strs_from_def)

text \<open>The memos of \<open>deepcopy\<close> hold copies made in the current pass.\<close>

definition strs_memo_from :: "addr \<Rightarrow> heap \<Rightarrow> memo \<Rightarrow> bool" where
  "strs_memo_from lo h ms \<longleftrightarrow> list_all (\<lambda>p. strs_from lo h (snd p)) ms"

definition dict_memo_from :: "addr \<Rightarrow> heap \<Rightarrow> memo \<Rightarrow> bool" where
  "dict_memo_from lo h md \<longleftrightarrow> list_all (\<lambda>p. dict_from lo h (snd p)) md"

lemma strs_memo_from_kept: "strs_memo_from lo h ms \<Longrightarrow> kept (next_free h) h h' \<Longrightarrow> strs_memo_from lo h' ms"
  by (auto simp: strs_memo_from_def list_all_iff intro: strs_from_kept)

lemma dict_memo_from_kept: "dict_memo_from lo h md \<Longrightarrow> kept (next_free h) h h' \<Longrightarrow> dict_memo_from lo h' md"
  by (auto simp: dict_memo_from_def list_all_iff intro: dict_from_kept)

lemma deepcopy_route_fresh:
  assumes "deepcopy_route r ms h = (r', ms', h')"
    and "strs_memo_from (next_free h0) h ms" "next_free h0 \<le> next_free h"
  shows "kept (next_free h) h h' \<and> strs_from (next_free h0) h' r' \<and> strs_memo_from (next_free h0) h' ms'"
proof (cases "map_of ms r")
  case None
  obtain a h1 where s: "new_strs (str_cells h r) h = (a, h1)" by (cases "new_strs (str_cells h r) h") auto
  with assms(1) None have eq: "r' = a" "ms' = (r, a) # ms" "h' = h1" by (auto simp: deepcopy_route_def)
  from new_strs_alloc[OF s] have k: "kept (next_free h) h h1" and a: "a = next_free h" "next_free h1 = Suc (next_free h)"
    by auto
  from a assms(3) have f: "strs_from (next_free h0) h1 a" by (simp add: strs_from_def)
  from strs_memo_from_kept[OF assms(2) k] f have "strs_memo_from (next_free h0) h1 ((r, a) # ms)"
    by (simp add: strs_memo_from_def)
  with k f eq show ?thesis by simp
next
  case (Some v)
  with assms(1) have eq: "r' = v" "ms' = ms" "h' = h" by (auto simp: deepcopy_route_def)
  from Some have "(r, v) \<in> set ms" by (rule map_of_SomeD)
  with assms(2) have "strs_from (next_free h0) h v" by (auto simp: strs_memo_from_def list_all_iff)
  with eq assms(2) show ?thesis by (simp add: kept_refl)
qed

lemma deepcopy_dict_fresh:
  assumes "deepcopy_dict d md ms h = (d', md', ms', h')"
    and "dict_memo_from (next_free h0) h md" "strs_memo_from (next_free h0) h ms" "next_free h0 \<le> next_free h"
  shows "kept (next_free h) h h' \<and> dict_from (next_free h0) h' d'
         \<and> dict_memo_from (next_free h0) h' md' \<and> strs_memo_from (next_free h0) h' ms'"
proof (cases "map_of md d")
  case None
  obtain r dep where rd: "dict_cells h d = (r, dep)" by (cases "dict_cells h d") auto
  obtain r1 ms1 h1 where c: "deepcopy_route r ms h = (r1, ms1, h1)" by (cases "deepcopy_route r ms h") auto
  obtain a h2 where nd: "new_dict r1 dep h1 = (a, h2)" by (cases "new_dict r1 dep h1") auto
  from assms(1) None rd c nd have eq: "d' = a" "md' = (d, a) # md" "ms' = ms1" "h' = h2"
    by (auto simp: deepcopy_dict_def)
  from deepcopy_route_fresh[OF c assms(3,4)]
  have k1: "kept (next_free h) h h1" and r1: "strs_from (next_free h0) h1 r1" and m1: "strs_memo_from (next_free h0) h1 ms1"
    by simp_all
  from new_dict_alloc[OF nd]
  have k2: "kept (next_free h1) h1 h2" and a: "a = next_free h1" "next_free h2 = Suc (next_free h1)"
    and da: "dict_cells h2 a = (r1, dep)" by auto
  from k1 assms(4) have n1: "next_free h0 \<le> next_free h1" by (simp add: kept_iff)
  from a da r1 n1 have f: "dict_from (next_free h0) h2 a" by (simp add: dict_from_def strs_from_def)
  from dict_memo_from_kept[OF dict_memo_from_kept[OF assms(2) k1] k2] f
  have "dict_memo_from (next_free h0) h2 ((d, a) # md)" by (simp add: dict_memo_from_def)
  with kept_step[OF k1 k2] f strs_memo_from_kept[OF m1 k2] eq show ?thesis by simp
next
  case (Some v)
  with assms(1) have eq: "d' = v" "md' = md" "ms' = ms" "h' = h" by (auto simp: deepcopy_dict_def)
  from Some have "(d, v) \<in> set md" by (rule map_of_SomeD)
  with assms(2) have "dict_from (next_free h0) h v" by (auto simp: dict_memo_from_def list_all_iff)
  with eq assms(2,3) show ?thesis by (simp add: kept_refl)
qed

lemma deepcopy_dicts_fresh:
  "deepcopy_dicts ds md ms h = (ds', md', ms', h') \<Longrightarrow>
   dict_memo_from (next_free h0) h md \<Longrightarrow> strs_memo_from (next_free h0) h ms \<Longrightarrow>
   next_free h0 \<le> next_free h \<Longrightarrow>
     kept (next_free h) h h' \<and> list_all (dict_from (next_free h0) h') ds'"
proof (induction ds arbitrary: md ms h ds' md' ms' h')
  case Nil
  then show ?case by (simp add: kept_refl)
next
  case (Cons d ds)
  obtain d1 md1 ms1 h1 where c: "deepcopy_dict d md ms h = (d1, md1, ms1, h1)"
    by (cases "deepcopy_dict d md ms h") auto
  obtain ds2 md2 ms2 h2 where r: "deepcopy_dicts ds md1 ms1 h1 = (ds2, md2, ms2, h2)"
    by (cases "deepcopy_dicts ds md1 ms1 h1") auto
  from Cons.prems(1) c r have eq: "ds' = d1 # ds2" "h' = h2" by simp_all
  from deepcopy_dict_fresh[OF c Cons.prems(2,3,4)]
  have k1: "kept (next_free h) h h1" and d1: "dict_from (next_free h0) h1 d1"
    and m1: "dict_memo_from (next_free h0) h1 md1" "strs_memo_from (next_free h0) h1 ms1" by simp_all
  from k1 Cons.prems(4) have n1: "next_free h0 \<le> next_free h1" by (simp add: kept_iff)
  from Cons.IH[OF r m1 n1]
  have k2: "kept (next_free h1) h1 h2" and rest: "list_all (dict_from (next_free h0) h2) ds2" by simp_all
  from dict_from_kept[OF d1 k2] rest kept_step[OF k1 k2] eq show ?case by simp
qed

lemma deepcopy_routes_fresh:
  assumes "deepcopy_routes a h = (b, h')"
  shows "kept (next_free h) h h' \<and> routes_from (next_free h) h' b"
proof -
  obtain ds md ms h1 where c: "deepcopy_dicts (list_cells h a) [] [] h = (ds, md, ms, h1)"
    by (cases "deepcopy_dicts (list_cells h a) [] [] h") auto
  with assms have nl: "new_list ds h1 = (b, h')" by (simp add: deepcopy_routes_def)
  have "kept (next_free h) h h1 \<and> list_all (dict_from (next_free h) h1) ds"
    by (rule deepcopy_dicts_fresh[OF c]) (simp_all add: dict_memo_from_def strs_memo_from_def)
  then have k1: "kept (next_free h) h h1" and ds: "list_all (dict_from (next_free h) h1) ds" by simp_all
  from new_list_alloc[OF nl]
  have k2: "kept (next_free h1) h1 h'" and b: "b = next_free h1" "next_free h' = Suc (next_free h1)"
    and lb: "list_cells h' b = ds" by blast+
  from k1 have n1: "next_free h \<le> next_free h1" by (simp add: kept_iff)
  from ds k2 have "list_all (dict_from (next_free h) h') ds"
    by (auto simp: list_all_iff intro: dict_from_kept)
  with b lb n1 have "routes_from (next_free h) h' b" by (simp add: routes_from_def)
  with kept_step[OF k1 k2] show ?thesis by simp
qed

text \<open>
  The loop over the reactants writes only to the two copies and to new cells: with
  \<open>iter_routes\<close> and \<open>iter_starting_materials\<close> allocated at \<open>n\<close> or later, the cells below \<open>n\<close>
  are kept, and the two variables still hold objects allocated at \<open>n\<close> or later.
\<close>

lemma ref_partition_reactant_frame:
  assumes "ref_partition_reactant e first_route d reactant (c, ir, sm, h) = Inr (c', ir', sm', h')"
    and "routes_from n h ir" "strs_from n h sm"
  shows "kept n h h' \<and> routes_from n h' ir' \<and> strs_from n h' sm'"
proof -
  from assms(1) obtain b where b: "check_reactant_is_material e reactant = Inr b"
    by (auto simp: ref_partition_reactant_def split: sum.splits)
  from assms(2) have nn: "n \<le> next_free h" by (simp add: routes_from_def)
  show ?thesis
  proof (cases b)
    case True
    with assms(1) b have eq: "h' = append_str sm reactant h" "ir' = ir" "sm' = sm"
      by (auto simp: ref_partition_reactant_def)
    from assms(3) have "kept n h (append_str sm reactant h)"
      using append_str_frame[of sm h reactant] by (auto simp: strs_from_def intro: kept_mono)
    moreover from assms(2) have "routes_from n (append_str sm reactant h) ir"
      using append_str_frame[of sm h reactant] by (auto simp: routes_from_def dict_from_def list_all_iff)
    moreover from assms(3) have "strs_from n (append_str sm reactant h) sm"
      using append_str_frame[of sm h reactant] by (simp add: strs_from_def)
    ultimately show ?thesis using eq by simp
  next
    case False
    obtain r h1 where s: "new_strs (str_cells h first_route @ [reactant]) h = (r, h1)"
      by (cases "new_strs (str_cells h first_route @ [reactant]) h") auto
    obtain dict h2 where nd: "new_dict r (d + 1) h1 = (dict, h2)" by (cases "new_dict r (d + 1) h1") auto
    obtain l h3 where nl: "new_list (dict # list_cells h2 ir) h2 = (l, h3)"
      by (cases "new_list (dict # list_cells h2 ir) h2") auto
    from assms(1) b False s nd nl have eq: "h' = h3" "ir' = l" "sm' = sm"
      by (auto simp: ref_partition_reactant_def split: sum.splits)
    from new_strs_alloc[OF s] have k1: "kept (next_free h) h h1" and r: "r = next_free h" "next_free h1 = Suc (next_free h)"
      by auto
    from new_dict_alloc[OF nd] have k2: "kept (next_free h1) h1 h2"
      and dc: "dict = next_free h1" "next_free h2 = Suc (next_free h1)" "dict_cells h2 dict = (r, d + 1)"
      by auto
    from new_list_alloc[OF nl] have k3: "kept (next_free h2) h2 h3"
      and l: "l = next_free h2" "next_free h3 = Suc (next_free h2)" "list_cells h3 l = dict # list_cells h2 ir"
      and dd: "dict_cells h3 = dict_cells h2"
      by auto
    from kept_step[OF k1 k2] have k12: "kept (next_free h) h h2" .
    from kept_step[OF k12 k3] have k: "kept (next_free h) h h3" .
    from routes_from_kept[OF assms(2) k12] have old2: "list_all (dict_from n h2) (list_cells h2 ir)"
      by (simp add: routes_from_def)
    then have old: "list_all (dict_from n h3) (list_cells h2 ir)"
      using k3 by (auto simp: list_all_iff intro: dict_from_kept)
    from dc r l dd nn have new: "dict_from n h3 dict" by (simp add: dict_from_def)
    from l dc r nn old new have "routes_from n h3 l" by (simp add: routes_from_def)
    moreover from strs_from_kept[OF assms(3) k] have "strs_from n h3 sm" .
    moreover from kept_mono[OF k nn] have "kept n h h3" .
    ultimately show ?thesis using eq by simp
  qed
qed

lemma ref_partition_loop_frame:
  assumes "for_each (ref_partition_reactant e first_route d) rs (c, ir, sm, h) = Inr (c', ir', sm', h')"
    and "routes_from n h ir" "strs_from n h sm"
  shows "kept n h h' \<and> routes_from n h' ir' \<and> strs_from n h' sm'"
proof -
  let ?P = "\<lambda>s. kept n h (snd (snd (snd s))) \<and> routes_from n (snd (snd (snd s))) (fst (snd s))
                 \<and> strs_from n (snd (snd (snd s))) (fst (snd (snd s)))"
  have "?P (c', ir', sm', h')"
  proof (rule for_each_invariant[OF assms(1), where P = ?P])
    show "?P (c, ir, sm, h)" using assms(2,3) by (simp add: kept_refl)
  next
    fix x s s'
    assume p: "?P s" and b: "ref_partition_reactant e first_route d x s = Inr s'"
    obtain c1 ir1 sm1 h1 where s: "s = (c1, ir1, sm1, h1)" by (cases s) auto
    obtain c2 ir2 sm2 h2 where s': "s' = (c2, ir2, sm2, h2)" by (cases s') auto
    from p s have k: "kept n h h1" "routes_from n h1 ir1" "strs_from n h1 sm1" by simp_all
    from ref_partition_reactant_frame[OF b[unfolded s s'] k(2,3)] k(1)
    show "?P s'" unfolding s' by (auto intro: kept_trans)
  qed
  then show ?thesis by simp
qed

text \<open>
  One expansion solution: the cells that exist before it are kept, and it appends one
  node to \<open>nxt_queue\<close> or one answer to \<open>answer_set\<close>, all of whose objects it has allocated.
\<close>

lemma ref_expand_solution_frame:
  assumes "ref_expand_solution e item first_route d mol sol st = Inr st'"
  shows "kept (next_free (store st)) (store st) (store st')
       \<and> ((\<exists>child. ref_nxt_queue st' = ref_nxt_queue st @ [child] \<and> ref_answer_set st' = ref_answer_set st
                   \<and> node_from (next_free (store st)) (store st') child)
          \<or> (\<exists>ans. ref_answer_set st' = ref_answer_set st @ [ans] \<and> ref_nxt_queue st' = ref_nxt_queue st
                   \<and> answer_from (next_free (store st)) (store st') ans))"
proof -
  let ?n = "next_free (store st)"
  obtain ir h1 where c1: "deepcopy_routes (ref_routes_info item) (store st) = (ir, h1)"
    by (cases "deepcopy_routes (ref_routes_info item) (store st)") auto
  from assms c1 obtain h2 where p: "pop_first ir h1 = Inr h2"
    by (auto simp: ref_expand_solution_def split: sum.splits)
  obtain sm h3 where c2: "deepcopy_strs (ref_starting_materials item) h2 = (sm, h3)"
    by (cases "deepcopy_strs (ref_starting_materials item) h2") auto
  from deepcopy_routes_fresh[OF c1] have k1: "kept ?n (store st) h1" and ir1: "routes_from ?n h1 ir" by simp_all
  from pop_first_frame[OF p] have k2: "kept ir h1 h2" and pf: "next_free h2 = next_free h1"
    "dict_cells h2 = dict_cells h1" "set (list_cells h2 ir) \<subseteq> set (list_cells h1 ir)" by simp_all
  from ir1 have irn: "?n \<le> ir" by (simp add: routes_from_def)
  from ir1 pf have ir2: "routes_from ?n h2 ir" by (auto simp: routes_from_def list_all_iff dict_from_def)
  from kept_trans[OF k1 kept_mono[OF k2 irn]] have k12: "kept ?n (store st) h2" .
  from new_strs_alloc[OF c2[unfolded deepcopy_strs_def]]
  have k3: "kept (next_free h2) h2 h3" and smf: "sm = next_free h2" "next_free h3 = Suc (next_free h2)" by auto
  from k12 have n2: "?n \<le> next_free h2" by (simp add: kept_iff)
  from kept_trans[OF k12 kept_mono[OF k3 n2]] have k: "kept ?n (store st) h3" .
  from routes_from_kept[OF ir2 k3] have ir3: "routes_from ?n h3 ir" .
  from smf n2 have sm3: "strs_from ?n h3 sm" by (simp add: strs_from_def)
  from k have n3: "?n \<le> next_free h3" by (simp add: kept_iff)
  from assms c1 p c2 obtain am where am: "check_reactants_are_material e (sort (fst sol)) = Inr am"
    by (auto simp: ref_expand_solution_def Let_def split: sum.splits)
  show ?thesis
  proof (cases "am \<and> length (list_cells h3 ir) = 0")
    case True
    obtain j h4 where nj: "new_strs (str_cells h3 sm @ sort (fst sol)) h3 = (j, h4)"
      by (cases "new_strs (str_cells h3 sm @ sort (fst sol)) h3") auto
    from assms c1 p c2 am True nj obtain v where
      eq: "st' = st\<lparr>ref_answer_set := ref_answer_set st @
                      [\<lparr>ref_answer_score = ref_score item + snd sol - v, ref_answer_materials = j\<rparr>],
                    store := h4\<rparr>"
      by (auto simp: ref_expand_solution_def Let_def split: sum.splits)
    from new_strs_alloc[OF nj] have k4: "kept (next_free h3) h3 h4" and j: "j = next_free h3" "next_free h4 = Suc (next_free h3)"
      by auto
    from kept_trans[OF k kept_mono[OF k4 n3]] have "kept ?n (store st) h4" .
    moreover from j n3 have "answer_from ?n h4 \<lparr>ref_answer_score = ref_score item + snd sol - v, ref_answer_materials = j\<rparr>"
      by (simp add: answer_from_def strs_from_def)
    ultimately show ?thesis unfolding eq by simp
  next
    case False
    with assms c1 p c2 am obtain c ir' sm' h4 v where
      loop: "for_each (ref_partition_reactant e first_route d) (sort (fst sol)) (0, ir, sm, h3) = Inr (c, ir', sm', h4)"
      and eq: "st' = st\<lparr>ref_nxt_queue := ref_nxt_queue st @
                      [\<lparr>ref_score = ref_score item + snd sol + c - v, ref_routes_info = ir',
                        ref_starting_materials = sm'\<rparr>],
                    store := h4\<rparr>"
      by (auto simp: ref_expand_solution_def Let_def split: sum.splits if_splits)
    from ref_partition_loop_frame[OF loop ir3 sm3]
    have k4: "kept ?n h3 h4" and f: "routes_from ?n h4 ir'" "strs_from ?n h4 sm'" by simp_all
    from kept_trans[OF k k4] have "kept ?n (store st) h4" .
    moreover from f have "node_from ?n h4 \<lparr>ref_score = ref_score item + snd sol + c - v, ref_routes_info = ir',
                        ref_starting_materials = sm'\<rparr>"
      by (simp add: node_from_def)
    ultimately show ?thesis unfolding eq by simp
  qed
qed

lemma ref_expand_item_frame:
  assumes "ref_expand_item gb e max_depth item st = Inr st'"
  shows "kept (next_free (store st)) (store st) (store st')
       \<and> (\<exists>children. ref_nxt_queue st' = ref_nxt_queue st @ children
                     \<and> list_all (node_from (next_free (store st)) (store st')) children)
       \<and> (\<exists>answers. ref_answer_set st' = ref_answer_set st @ answers
                     \<and> list_all (answer_from (next_free (store st)) (store st')) answers)"
proof -
  let ?n = "next_free (store st)"
  let ?P = "\<lambda>s. kept ?n (store st) (store s)
       \<and> (\<exists>children. ref_nxt_queue s = ref_nxt_queue st @ children
                     \<and> list_all (node_from ?n (store s)) children)
       \<and> (\<exists>answers. ref_answer_set s = ref_answer_set st @ answers
                     \<and> list_all (answer_from ?n (store s)) answers)"
  have init: "?P st" by (simp add: kept_refl)
  from assms obtain f others where l: "list_cells (store st) (ref_routes_info item) = f # others"
    by (auto simp: ref_expand_item_def split: list.splits)
  obtain fr d where dc: "dict_cells (store st) f = (fr, d)" by (cases "dict_cells (store st) f") auto
  show ?thesis
  proof (cases "d > max_depth")
    case True
    with assms l dc have "st' = st" by (simp add: ref_expand_item_def)
    with init show ?thesis by simp
  next
    case False
    with assms l dc obtain sols where
      fe: "for_each (ref_expand_solution e item fr d (last (str_cells (store st) fr))) sols st = Inr st'"
      by (auto simp: ref_expand_item_def split: if_splits sum.splits)
    show ?thesis
    proof (rule for_each_invariant[OF fe, where P = ?P])
      show "?P st" by (rule init)
    next
      fix x s s'
      assume p: "?P s"
        and ex: "ref_expand_solution e item fr d (last (str_cells (store st) fr)) x s = Inr s'"
      from p have k: "kept ?n (store st) (store s)" by simp
      from p obtain cs where cs: "ref_nxt_queue s = ref_nxt_queue st @ cs" "list_all (node_from ?n (store s)) cs"
        by blast
      from p obtain as where as: "ref_answer_set s = ref_answer_set st @ as" "list_all (answer_from ?n (store s)) as"
        by blast
      from k have ns: "?n \<le> next_free (store s)" by (simp add: kept_iff)
      note fr = ref_expand_solution_frame[OF ex]
      from fr have ks: "kept (next_free (store s)) (store s) (store s')" by simp
      from kept_trans[OF k kept_mono[OF ks ns]] have k': "kept ?n (store st) (store s')" .
      from cs(2) ks have cs': "list_all (node_from ?n (store s')) cs"
        by (auto simp: list_all_iff intro: node_from_kept)
      from as(2) ks have as': "list_all (answer_from ?n (store s')) as"
        by (auto simp: list_all_iff intro: answer_from_kept)
      from fr consider
        (child) child where "ref_nxt_queue s' = ref_nxt_queue s @ [child]" "ref_answer_set s' = ref_answer_set s"
          "node_from (next_free (store s)) (store s') child"
      | (ans) ans where "ref_answer_set s' = ref_answer_set s @ [ans]" "ref_nxt_queue s' = ref_nxt_queue s"
          "answer_from (next_free (store s)) (store s') ans"
        by blast
      then show "?P s'"
      proof cases
        case child
        from child(3) ns have "node_from ?n (store s') child"
          by (auto simp: node_from_def intro: routes_from_mono strs_from_mono)
        with cs' have "list_all (node_from ?n (store s')) (cs @ [child])" by simp
        moreover from child(1) cs(1) have "ref_nxt_queue s' = ref_nxt_queue st @ (cs @ [child])" by simp
        moreover from child(2) as(1) have "ref_answer_set s' = ref_answer_set st @ as" by simp
        ultimately show ?thesis using k' as' by blast
      next
        case ans
        from ans(3) ns have "answer_from ?n (store s') ans"
          by (auto simp: answer_from_def intro: strs_from_mono)
        with as' have "list_all (answer_from ?n (store s')) (as @ [ans])" by simp
        moreover from ans(1) as(1) have "ref_answer_set s' = ref_answer_set st @ (as @ [ans])" by simp
        moreover from ans(2) cs(1) have "ref_nxt_queue s' = ref_nxt_queue st @ cs" by simp
        ultimately show ?thesis using k' cs' by blast
      qed
    qed
  qed
qed

lemma routes_of_kept:
  assumes "routes_from 0 h a" "kept (next_free h) h h'"
  shows "routes_of h' a = routes_of h a"
  using assms by (auto simp: routes_of_def routes_from_def list_all_iff dict_from_def kept_iff)

subsection \<open>The expansion over the store and the expansion over values agree\<close>

text \<open>
  Read through the store, the expansion over the store is the expansion over values
  \<open>expand_item\<close>: when it raises an error that one raises the same error, and when it
  returns that one returns, and the nodes and answers appended hold the values that one
  appends.
\<close>

definition entry_of :: "heap \<Rightarrow> addr \<Rightarrow> route_info" where
  "entry_of h d = \<lparr>route = str_cells h (fst (dict_cells h d)), depth = snd (dict_cells h d)\<rparr>"

definition strs_memo_copy :: "heap \<Rightarrow> memo \<Rightarrow> bool" where
  "strs_memo_copy h ms \<longleftrightarrow>
     list_all (\<lambda>p. fst p < next_free h \<and> snd p < next_free h \<and> str_cells h (snd p) = str_cells h (fst p)) ms"

definition dict_memo_copy :: "heap \<Rightarrow> memo \<Rightarrow> bool" where
  "dict_memo_copy h md \<longleftrightarrow>
     list_all (\<lambda>p. dict_from 0 h (fst p) \<and> dict_from 0 h (snd p) \<and> entry_of h (snd p) = entry_of h (fst p)) md"

lemma routes_of_entry: "routes_of h a = map (entry_of h) (list_cells h a)"
  by (simp add: routes_of_def entry_of_def)

lemma entry_of_kept: "dict_from lo h d \<Longrightarrow> kept (next_free h) h h' \<Longrightarrow> entry_of h' d = entry_of h d"
  by (auto simp: entry_of_def dict_from_def kept_iff)

lemma strs_memo_copy_kept: "strs_memo_copy h ms \<Longrightarrow> kept (next_free h) h h' \<Longrightarrow> strs_memo_copy h' ms"
  by (auto simp: strs_memo_copy_def list_all_iff kept_iff)

lemma dict_memo_copy_kept: "dict_memo_copy h md \<Longrightarrow> kept (next_free h) h h' \<Longrightarrow> dict_memo_copy h' md"
  by (auto simp: dict_memo_copy_def list_all_iff entry_of_kept intro: dict_from_kept)

lemma new_strs_content:
  "new_strs xs h = (a, h') \<Longrightarrow> str_cells h' (next_free h) = xs \<and> dict_cells h' = dict_cells h \<and> list_cells h' = list_cells h"
  by (auto simp: new_strs_def)

lemma deepcopy_route_copy:
  assumes "deepcopy_route r ms h = (r', ms', h')"
    and "strs_memo_copy h ms" "r < next_free h"
  shows "kept (next_free h) h h' \<and> r' < next_free h' \<and> str_cells h' r' = str_cells h r \<and> strs_memo_copy h' ms'"
proof (cases "map_of ms r")
  case None
  obtain a h1 where s: "new_strs (str_cells h r) h = (a, h1)" by (cases "new_strs (str_cells h r) h") auto
  with assms(1) None have eq: "r' = a" "ms' = (r, a) # ms" "h' = h1" by (auto simp: deepcopy_route_def)
  from new_strs_alloc[OF s] have k: "kept (next_free h) h h1" and a: "a = next_free h" "next_free h1 = Suc (next_free h)"
    by auto
  from new_strs_content[OF s] a have c: "str_cells h1 a = str_cells h r" by simp
  from k assms(3) have r1: "str_cells h1 r = str_cells h r" by (simp add: kept_iff)
  from strs_memo_copy_kept[OF assms(2) k] c r1 a assms(3) have "strs_memo_copy h1 ((r, a) # ms)"
    by (simp add: strs_memo_copy_def)
  with k c a eq show ?thesis by simp
next
  case (Some v)
  with assms(1) have eq: "r' = v" "ms' = ms" "h' = h" by (auto simp: deepcopy_route_def)
  from Some have "(r, v) \<in> set ms" by (rule map_of_SomeD)
  with assms(2) have "v < next_free h \<and> str_cells h v = str_cells h r" by (auto simp: strs_memo_copy_def list_all_iff)
  with eq assms(2) show ?thesis by (simp add: kept_refl)
qed

lemma deepcopy_dict_copy:
  assumes "deepcopy_dict d md ms h = (d', md', ms', h')"
    and "dict_memo_copy h md" "strs_memo_copy h ms" "dict_from 0 h d"
  shows "kept (next_free h) h h' \<and> dict_from 0 h' d' \<and> entry_of h' d' = entry_of h d
         \<and> dict_memo_copy h' md' \<and> strs_memo_copy h' ms'"
proof (cases "map_of md d")
  case None
  obtain r dep where rd: "dict_cells h d = (r, dep)" by (cases "dict_cells h d") auto
  obtain r1 ms1 h1 where c: "deepcopy_route r ms h = (r1, ms1, h1)" by (cases "deepcopy_route r ms h") auto
  obtain a h2 where nd: "new_dict r1 dep h1 = (a, h2)" by (cases "new_dict r1 dep h1") auto
  from assms(1) None rd c nd have eq: "d' = a" "md' = (d, a) # md" "ms' = ms1" "h' = h2"
    by (auto simp: deepcopy_dict_def)
  from assms(4) rd have rb: "r < next_free h" by (simp add: dict_from_def)
  from deepcopy_route_copy[OF c assms(3) rb]
  have k1: "kept (next_free h) h h1" and r1: "r1 < next_free h1" "str_cells h1 r1 = str_cells h r"
    and m1: "strs_memo_copy h1 ms1" by simp_all
  from new_dict_alloc[OF nd]
  have k2: "kept (next_free h1) h1 h2" and a: "a = next_free h1" "next_free h2 = Suc (next_free h1)"
    and da: "dict_cells h2 a = (r1, dep)" by auto
  have s2: "str_cells h2 = str_cells h1" using nd by (auto simp: new_dict_def)
  from kept_step[OF k1 k2] have k: "kept (next_free h) h h2" .
  from a da r1 have f: "dict_from 0 h2 a" by (simp add: dict_from_def)
  from entry_of_kept[OF assms(4) k] rd have "entry_of h2 d = \<lparr>route = str_cells h r, depth = dep\<rparr>"
    by (simp add: entry_of_def)
  moreover from da s2 r1 have "entry_of h2 a = \<lparr>route = str_cells h r, depth = dep\<rparr>"
    by (simp add: entry_of_def)
  ultimately have e: "entry_of h2 a = entry_of h2 d" "entry_of h2 a = entry_of h d"
    using rd by (simp_all add: entry_of_def)
  from dict_memo_copy_kept[OF assms(2) k] f e dict_from_kept[OF assms(4) k]
  have "dict_memo_copy h2 ((d, a) # md)" by (simp add: dict_memo_copy_def)
  with k f e strs_memo_copy_kept[OF m1 k2] eq show ?thesis by simp
next
  case (Some v)
  with assms(1) have eq: "d' = v" "md' = md" "ms' = ms" "h' = h" by (auto simp: deepcopy_dict_def)
  from Some have "(d, v) \<in> set md" by (rule map_of_SomeD)
  with assms(2) have "dict_from 0 h v \<and> entry_of h v = entry_of h d"
    by (auto simp: dict_memo_copy_def list_all_iff)
  with eq assms(2,3) show ?thesis by (simp add: kept_refl)
qed

lemma deepcopy_dicts_copy:
  "deepcopy_dicts ds md ms h = (ds', md', ms', h') \<Longrightarrow>
   dict_memo_copy h md \<Longrightarrow> strs_memo_copy h ms \<Longrightarrow> list_all (dict_from 0 h) ds \<Longrightarrow>
     kept (next_free h) h h' \<and> map (entry_of h') ds' = map (entry_of h) ds"
proof (induction ds arbitrary: md ms h ds' md' ms' h')
  case Nil
  then show ?case by (simp add: kept_refl)
next
  case (Cons d ds)
  obtain d1 md1 ms1 h1 where c: "deepcopy_dict d md ms h = (d1, md1, ms1, h1)"
    by (cases "deepcopy_dict d md ms h") auto
  obtain ds2 md2 ms2 h2 where r: "deepcopy_dicts ds md1 ms1 h1 = (ds2, md2, ms2, h2)"
    by (cases "deepcopy_dicts ds md1 ms1 h1") auto
  from Cons.prems(1) c r have eq: "ds' = d1 # ds2" "h' = h2" by simp_all
  from Cons.prems(4) have d: "dict_from 0 h d" and ds: "list_all (dict_from 0 h) ds" by simp_all
  from deepcopy_dict_copy[OF c Cons.prems(2,3) d]
  have k1: "kept (next_free h) h h1" and d1: "dict_from 0 h1 d1" "entry_of h1 d1 = entry_of h d"
    and m1: "dict_memo_copy h1 md1" "strs_memo_copy h1 ms1" by simp_all
  from ds k1 have ds1: "list_all (dict_from 0 h1) ds" by (auto simp: list_all_iff intro: dict_from_kept)
  from Cons.IH[OF r m1 ds1]
  have k2: "kept (next_free h1) h1 h2" and rest: "map (entry_of h2) ds2 = map (entry_of h1) ds" by simp_all
  from ds k1 have "map (entry_of h1) ds = map (entry_of h) ds"
    by (auto simp: list_all_iff intro: entry_of_kept)
  with rest entry_of_kept[OF d1(1) k2] d1(2) kept_step[OF k1 k2] eq show ?case by simp
qed

lemma deepcopy_routes_copy:
  assumes "deepcopy_routes a h = (b, h')" and "routes_from 0 h a"
  shows "routes_of h' b = routes_of h a"
proof -
  obtain ds md ms h1 where c: "deepcopy_dicts (list_cells h a) [] [] h = (ds, md, ms, h1)"
    by (cases "deepcopy_dicts (list_cells h a) [] [] h") auto
  with assms(1) have nl: "new_list ds h1 = (b, h')" by (simp add: deepcopy_routes_def)
  from assms(2) have al: "list_all (dict_from 0 h) (list_cells h a)" by (simp add: routes_from_def)
  have "kept (next_free h) h h1 \<and> map (entry_of h1) ds = map (entry_of h) (list_cells h a)"
    by (rule deepcopy_dicts_copy[OF c _ _ al]) (simp_all add: dict_memo_copy_def strs_memo_copy_def)
  then have m: "map (entry_of h1) ds = map (entry_of h) (list_cells h a)" by simp
  from nl have "list_cells h' b = ds" "dict_cells h' = dict_cells h1" "str_cells h' = str_cells h1"
    by (auto simp: new_list_def)
  then have "routes_of h' b = map (entry_of h1) ds" by (simp add: routes_of_entry entry_of_def)
  with m show ?thesis by (simp add: routes_of_entry)
qed

text \<open>A loop over the store and a loop over values that stay related step by step.\<close>

lemma for_each_related:
  assumes "R s p"
    and "\<And>x s p. x \<in> set xs \<Longrightarrow> R s p \<Longrightarrow>
           (case body x s of Inl err \<Rightarrow> pbody x p = Inl err
            | Inr s' \<Rightarrow> (\<exists>p'. pbody x p = Inr p' \<and> R s' p'))"
  shows "case for_each body xs s of Inl err \<Rightarrow> for_each pbody xs p = Inl err
         | Inr s' \<Rightarrow> (\<exists>p'. for_each pbody xs p = Inr p' \<and> R s' p')"
  using assms
proof (induction xs arbitrary: s p)
  case Nil
  then show ?case by simp
next
  case (Cons x xs)
  note step = Cons.prems(2)[OF _ Cons.prems(1), of x]
  show ?case
  proof (cases "body x s")
    case (Inl err)
    with step show ?thesis by simp
  next
    case (Inr s1)
    with step obtain p1 where p1: "pbody x p = Inr p1" "R s1 p1" by auto
    have "case for_each body xs s1 of Inl err \<Rightarrow> for_each pbody xs p1 = Inl err
         | Inr s' \<Rightarrow> (\<exists>p'. for_each pbody xs p1 = Inr p' \<and> R s' p')"
      by (rule Cons.IH[OF p1(2)]) (rule Cons.prems(2), simp_all)
    with Inr p1(1) show ?thesis by (simp split: sum.splits)
  qed
qed

text \<open>
  The loop over the reactants. The copy of \<open>starting_materials\<close> is the path list of no
  pending entry of \<open>iter_routes\<close>, so \<open>append\<close> changes no path.
\<close>

definition part_related :: "addr \<Rightarrow> heap \<Rightarrow> ref_part_state \<Rightarrow> part_state \<Rightarrow> bool" where
  "part_related n h0 s p \<longleftrightarrow>
     (case s of (c, ir, sm, h) \<Rightarrow>
        p = (c, routes_of h ir, str_cells h sm) \<and> kept n h0 h \<and> routes_from n h ir \<and> strs_from n h sm
        \<and> list_all (\<lambda>d. fst (dict_cells h d) \<noteq> sm) (list_cells h ir))"

lemma append_str_routes:
  assumes "list_all (\<lambda>d. fst (dict_cells h d) \<noteq> sm) (list_cells h ir)"
  shows "routes_of (append_str sm x h) ir = routes_of h ir"
  using assms by (auto simp: routes_of_def append_str_def list_all_iff)

lemma ref_partition_reactant_refines:
  assumes rel: "part_related n h0 (c, ir, sm, h) p" and fr: "fr < n"
  shows "case ref_partition_reactant e fr d x (c, ir, sm, h) of
           Inl err \<Rightarrow> partition_reactant e (str_cells h0 fr) d x p = Inl err
         | Inr s' \<Rightarrow> (\<exists>p'. partition_reactant e (str_cells h0 fr) d x p = Inr p' \<and> part_related n h0 s' p')"
proof -
  from rel have p: "p = (c, routes_of h ir, str_cells h sm)" and k0: "kept n h0 h"
    and ri: "routes_from n h ir" and si: "strs_from n h sm"
    and sep: "list_all (\<lambda>d. fst (dict_cells h d) \<noteq> sm) (list_cells h ir)"
    by (simp_all add: part_related_def)
  from k0 fr have frv: "str_cells h fr = str_cells h0 fr" by (simp add: kept_iff)
  show ?thesis
  proof (cases "ref_partition_reactant e fr d x (c, ir, sm, h)")
    case (Inl err)
    then have "partition_reactant e (str_cells h0 fr) d x p = Inl err"
      unfolding p by (auto simp: ref_partition_reactant_def partition_reactant_def new_strs_def new_dict_def new_list_def
          split: sum.splits if_splits)
    with Inl show ?thesis by simp
  next
    case (Inr s')
    obtain c' ir' sm' h' where s': "s' = (c', ir', sm', h')" by (cases s') auto
    from ref_partition_reactant_frame[OF Inr[unfolded s'] ri si]
    have k: "kept n h h'" and ri': "routes_from n h' ir'" and si': "strs_from n h' sm'" by simp_all
    from Inr obtain b where b: "check_reactant_is_material e x = Inr b"
      by (auto simp: ref_partition_reactant_def split: sum.splits)
    have "partition_reactant e (str_cells h0 fr) d x p = Inr (c', routes_of h' ir', str_cells h' sm')
          \<and> list_all (\<lambda>d. fst (dict_cells h' d) \<noteq> sm') (list_cells h' ir')"
    proof (cases b)
      case True
      with Inr s' b have eq: "h' = append_str sm x h" "ir' = ir" "sm' = sm" "c' = c"
        by (auto simp: ref_partition_reactant_def)
      have "str_cells (append_str sm x h) sm = str_cells h sm @ [x]" by (simp add: append_str_def)
      moreover have "list_all (\<lambda>d. fst (dict_cells (append_str sm x h) d) \<noteq> sm) (list_cells (append_str sm x h) ir)"
        using sep by (simp add: append_str_def)
      ultimately show ?thesis
        unfolding eq p using b True append_str_routes[OF sep, of x]
        by (simp add: partition_reactant_def)
    next
      case False
      with Inr b obtain v where v: "value_fn e x = Inr v"
        by (auto simp: ref_partition_reactant_def split: sum.splits)
      obtain r h1 where s: "new_strs (str_cells h fr @ [x]) h = (r, h1)"
        by (cases "new_strs (str_cells h fr @ [x]) h") auto
      obtain dict h2 where nd: "new_dict r (d + 1) h1 = (dict, h2)" by (cases "new_dict r (d + 1) h1") auto
      obtain l h3 where nl: "new_list (dict # list_cells h2 ir) h2 = (l, h3)"
        by (cases "new_list (dict # list_cells h2 ir) h2") auto
      from Inr s' b False v s nd nl have eq: "h' = h3" "ir' = l" "sm' = sm" "c' = c + v"
        by (auto simp: ref_partition_reactant_def)
      from ri have irb: "ir < next_free h" and ds: "list_all (dict_from n h) (list_cells h ir)"
        by (simp_all add: routes_from_def)
      from si have smb: "sm < next_free h" by (simp add: strs_from_def)
      from s nd nl have cells:
        "list_cells h3 l = dict # list_cells h ir"
        "dict_cells h3 dict = (r, d + 1)"
        "str_cells h3 r = str_cells h fr @ [x]"
        "r = next_free h" "dict = Suc (next_free h)"
        "\<forall>a. a < next_free h \<longrightarrow> dict_cells h3 a = dict_cells h a \<and> str_cells h3 a = str_cells h a"
        using irb by (auto simp: new_strs_def new_dict_def new_list_def)
      from ds have old: "\<forall>d' \<in> set (list_cells h ir). d' < next_free h \<and> fst (dict_cells h d') < next_free h"
        by (auto simp: list_all_iff dict_from_def)
      have "map (entry_of h3) (list_cells h ir) = map (entry_of h) (list_cells h ir)"
        using old cells(6) by (auto simp: entry_of_def)
      with cells have ro: "routes_of h3 l = \<lparr>route = str_cells h fr @ [x], depth = d + 1\<rparr> # routes_of h ir"
        by (simp add: routes_of_entry entry_of_def)
      from cells(6) smb have sm3: "str_cells h3 sm = str_cells h sm" by simp
      from sep old cells smb have sep3: "list_all (\<lambda>d. fst (dict_cells h3 d) \<noteq> sm) (list_cells h3 l)"
        by (auto simp: list_all_iff)
      from ro sm3 sep3 show ?thesis
        unfolding eq p using b False v frv by (simp add: partition_reactant_def)
    qed
    with k0 k ri' si' have "\<exists>p'. partition_reactant e (str_cells h0 fr) d x p = Inr p' \<and> part_related n h0 s' p'"
      unfolding s' by (auto simp: part_related_def intro: kept_trans)
    with Inr show ?thesis by simp
  qed
qed

lemma ref_partition_loop_refines:
  assumes "part_related n h0 s p" and "fr < n"
  shows "case for_each (ref_partition_reactant e fr d) rs s of
           Inl err \<Rightarrow> for_each (partition_reactant e (str_cells h0 fr) d) rs p = Inl err
         | Inr s' \<Rightarrow> (\<exists>p'. for_each (partition_reactant e (str_cells h0 fr) d) rs p = Inr p' \<and> part_related n h0 s' p')"
proof (rule for_each_related[where R = "part_related n h0", OF assms(1)])
  fix x s p
  assume r: "part_related n h0 s p"
  obtain c ir sm h where s: "s = (c, ir, sm, h)" by (cases s) auto
  from ref_partition_reactant_refines[OF r[unfolded s] assms(2), of e d x]
  show "case ref_partition_reactant e fr d x s of
           Inl err \<Rightarrow> partition_reactant e (str_cells h0 fr) d x p = Inl err
         | Inr s' \<Rightarrow> (\<exists>p'. partition_reactant e (str_cells h0 fr) d x p = Inr p' \<and> part_related n h0 s' p')"
    unfolding s .
qed

text \<open>One expansion solution.\<close>

definition appended_alike :: "ref_state \<Rightarrow> ref_state \<Rightarrow> search_state \<Rightarrow> search_state \<Rightarrow> bool" where
  "appended_alike s s' p p' \<longleftrightarrow>
     (\<exists>child. ref_nxt_queue s' = ref_nxt_queue s @ [child] \<and> ref_answer_set s' = ref_answer_set s
         \<and> nxt_queue p' = nxt_queue p @ [node_of (store s') child] \<and> answer_set p' = answer_set p)
     \<or> (\<exists>ans. ref_answer_set s' = ref_answer_set s @ [ans] \<and> ref_nxt_queue s' = ref_nxt_queue s
         \<and> answer_set p' = answer_set p @ [answer_of (store s') ans] \<and> nxt_queue p' = nxt_queue p)"

lemma ref_expand_solution_refines:
  assumes wf: "node_from 0 (store s) item" and fr: "fr < next_free (store s)"
  shows "case ref_expand_solution e item fr d mol sol s of
           Inl err \<Rightarrow> expand_solution e (node_of (store s) item) (str_cells (store s) fr) d mol sol p = Inl err
         | Inr s' \<Rightarrow> (\<exists>p'. expand_solution e (node_of (store s) item) (str_cells (store s) fr) d mol sol p = Inr p'
                          \<and> appended_alike s s' p p')"
proof -
  let ?h = "store s"
  let ?n = "next_free (store s)"
  let ?it = "node_of (store s) item"
  let ?rs = "sort (fst sol)"
  from wf have r0: "routes_from 0 ?h (ref_routes_info item)" and m0: "ref_starting_materials item < ?n"
    by (simp_all add: node_from_def strs_from_def)
  obtain ir h1 where c1: "deepcopy_routes (ref_routes_info item) ?h = (ir, h1)"
    by (cases "deepcopy_routes (ref_routes_info item) ?h") auto
  from deepcopy_routes_copy[OF c1 r0] have copy: "routes_of h1 ir = routes_info ?it" by (simp add: node_of_def)
  from deepcopy_routes_fresh[OF c1] have k1: "kept ?n ?h h1" and ir1: "routes_from ?n h1 ir" by simp_all
  show ?thesis
  proof (cases "list_cells h1 ir")
    case Nil
    then have "ref_expand_solution e item fr d mol sol s = Inl IndexError"
      by (simp add: ref_expand_solution_def c1 pop_first_def)
    moreover from Nil copy have "routes_info ?it = []" by (simp add: routes_of_def)
    then have "expand_solution e ?it (str_cells ?h fr) d mol sol p = Inl IndexError"
      by (simp add: expand_solution_def)
    ultimately show ?thesis by simp
  next
    case (Cons d0 rest)
    define h2 where "h2 = h1\<lparr>list_cells := (list_cells h1)(ir := rest)\<rparr>"
    from Cons have p: "pop_first ir h1 = Inr h2" by (simp add: pop_first_def h2_def)
    have h2: "next_free h2 = next_free h1" "dict_cells h2 = dict_cells h1" "str_cells h2 = str_cells h1"
      "list_cells h2 ir = rest" by (simp_all add: h2_def)
    obtain sm h3 where c2: "deepcopy_strs (ref_starting_materials item) h2 = (sm, h3)"
      by (cases "deepcopy_strs (ref_starting_materials item) h2") auto
    then have h3: "sm = next_free h1" "next_free h3 = Suc (next_free h1)" "dict_cells h3 = dict_cells h1"
      "list_cells h3 ir = rest" "str_cells h3 sm = str_cells h1 (ref_starting_materials item)"
      "\<forall>a. a \<noteq> next_free h1 \<longrightarrow> str_cells h3 a = str_cells h1 a"
      "\<forall>a. a \<noteq> ir \<longrightarrow> list_cells h3 a = list_cells h1 a"
      by (auto simp: deepcopy_strs_def new_strs_def h2_def)
    from ir1 Cons have irf: "?n \<le> ir" "ir < next_free h1"
      and dsf: "\<forall>d' \<in> set (d0 # rest). ?n \<le> d' \<and> d' < next_free h1
                  \<and> ?n \<le> fst (dict_cells h1 d') \<and> fst (dict_cells h1 d') < next_free h1"
      by (auto simp: routes_from_def list_all_iff dict_from_def)
    from k1 have n1: "?n \<le> next_free h1" by (simp add: kept_iff)
    have k3: "kept ?n ?h h3"
      using k1 h3 irf n1 by (auto simp: kept_iff)
    have ir3: "routes_from ?n h3 ir"
      using irf dsf h3 by (auto simp: routes_from_def list_all_iff dict_from_def)
    have sm3: "strs_from ?n h3 sm" using h3 n1 by (simp add: strs_from_def)
    have sep: "list_all (\<lambda>d. fst (dict_cells h3 d) \<noteq> sm) (list_cells h3 ir)"
      using dsf h3 by (auto simp: list_all_iff)
    have "map (entry_of h3) rest = map (entry_of h1) rest"
      using dsf h3 by (auto simp: entry_of_def)
    with h3 have "routes_of h3 ir = map (entry_of h1) rest" by (simp add: routes_of_entry)
    moreover from copy Cons have "routes_info ?it = entry_of h1 d0 # map (entry_of h1) rest"
      by (simp add: routes_of_entry)
    ultimately have pi: "routes_info ?it = entry_of h1 d0 # routes_of h3 ir" by simp
    from k1 m0 h3 have ps: "str_cells h3 sm = starting_materials ?it"
      by (simp add: kept_iff node_of_def)
    have sc: "score ?it = ref_score item" by (simp add: node_of_def)
    from k3 fr have frv: "str_cells h3 fr = str_cells ?h fr" by (simp add: kept_iff)
    have len: "routes_of h3 ir = [] \<longleftrightarrow> list_cells h3 ir = []" by (simp add: routes_of_def)
    show ?thesis
    proof (cases "check_reactants_are_material e ?rs")
      case (Inl err)
      then have "ref_expand_solution e item fr d mol sol s = Inl err"
        by (auto simp: ref_expand_solution_def c1 p c2 Let_def)
      moreover from Inl pi have "expand_solution e ?it (str_cells ?h fr) d mol sol p = Inl err"
        by (auto simp: expand_solution_def Let_def)
      ultimately show ?thesis by simp
    next
      case (Inr am)
      show ?thesis
      proof (cases "am \<and> length (list_cells h3 ir) = 0")
        case True
        show ?thesis
        proof (cases "value_fn e mol")
          case (Inl err)
          with Inr True have "ref_expand_solution e item fr d mol sol s = Inl err"
            by (auto simp: ref_expand_solution_def c1 p c2 Let_def)
          moreover from Inl Inr True pi len have "expand_solution e ?it (str_cells ?h fr) d mol sol p = Inl err"
            by (auto simp: expand_solution_def Let_def)
          ultimately show ?thesis by simp
        next
          case v: (Inr v)
          obtain j h4 where nj: "new_strs (str_cells h3 sm @ ?rs) h3 = (j, h4)"
            by (cases "new_strs (str_cells h3 sm @ ?rs) h3") auto
          let ?ans = "\<lparr>ref_answer_score = ref_score item + snd sol - v, ref_answer_materials = j\<rparr>"
          let ?s' = "s\<lparr>ref_answer_set := ref_answer_set s @ [?ans], store := h4\<rparr>"
          let ?p' = "p\<lparr>answer_set := answer_set p @
                         [\<lparr>answer_score = score ?it + snd sol - v,
                           answer_materials = starting_materials ?it @ ?rs\<rparr>],
                       origins := origins p @ [str_cells ?h fr]\<rparr>"
          from v Inr True nj have r: "ref_expand_solution e item fr d mol sol s = Inr ?s'"
            by (auto simp: ref_expand_solution_def c1 p c2 Let_def)
          from v Inr True pi len have q: "expand_solution e ?it (str_cells ?h fr) d mol sol p = Inr ?p'"
            by (auto simp: expand_solution_def Let_def)
          from nj have "str_cells h4 j = str_cells h3 sm @ ?rs" by (auto simp: new_strs_def)
          with ps sc have "answer_of h4 ?ans =
              \<lparr>answer_score = score ?it + snd sol - v, answer_materials = starting_materials ?it @ ?rs\<rparr>"
            by (simp add: answer_of_def)
          then have "appended_alike s ?s' p ?p'" by (simp add: appended_alike_def)
          with r q show ?thesis by simp
        qed
      next
        case False
        have rel: "part_related ?n h3 (0, ir, sm, h3) (0, routes_of h3 ir, str_cells h3 sm)"
          using ir3 sm3 sep by (simp add: part_related_def kept_refl)
        have frn: "fr < ?n" by (rule fr)
        note loop = ref_partition_loop_refines[OF rel frn, of e d ?rs]
        show ?thesis
        proof (cases "for_each (ref_partition_reactant e fr d) ?rs (0, ir, sm, h3)")
          case (Inl err)
          with loop have "for_each (partition_reactant e (str_cells h3 fr) d) ?rs (0, routes_of h3 ir, str_cells h3 sm) = Inl err"
            by simp
          with Inr False pi len ps frv have "expand_solution e ?it (str_cells ?h fr) d mol sol p = Inl err"
            by (auto simp: expand_solution_def Let_def)
          moreover from Inl Inr False have "ref_expand_solution e item fr d mol sol s = Inl err"
            by (auto simp: ref_expand_solution_def c1 p c2 Let_def)
          ultimately show ?thesis by simp
        next
          case lp: (Inr s4)
          obtain c' ir' sm' h4 where s4: "s4 = (c', ir', sm', h4)" by (cases s4) auto
          from loop lp s4
          have pl: "for_each (partition_reactant e (str_cells h3 fr) d) ?rs (0, routes_of h3 ir, str_cells h3 sm)
                      = Inr (c', routes_of h4 ir', str_cells h4 sm')"
            by (auto simp: part_related_def)
          show ?thesis
          proof (cases "value_fn e mol")
            case (Inl err)
            with lp s4 Inr False have "ref_expand_solution e item fr d mol sol s = Inl err"
              by (auto simp: ref_expand_solution_def c1 p c2 Let_def)
            moreover from Inl pl Inr False pi len ps frv have "expand_solution e ?it (str_cells ?h fr) d mol sol p = Inl err"
              by (auto simp: expand_solution_def Let_def)
            ultimately show ?thesis by simp
          next
            case v: (Inr v)
            let ?child = "\<lparr>ref_score = ref_score item + snd sol + c' - v, ref_routes_info = ir',
                            ref_starting_materials = sm'\<rparr>"
            let ?s' = "s\<lparr>ref_nxt_queue := ref_nxt_queue s @ [?child], store := h4\<rparr>"
            let ?p' = "p\<lparr>nxt_queue := nxt_queue p @
                         [\<lparr>score = score ?it + snd sol + c' - v, routes_info = routes_of h4 ir',
                           starting_materials = str_cells h4 sm'\<rparr>]\<rparr>"
            from v lp s4 Inr False have r: "ref_expand_solution e item fr d mol sol s = Inr ?s'"
              by (auto simp: ref_expand_solution_def c1 p c2 Let_def)
            from v pl Inr False pi len ps frv have q: "expand_solution e ?it (str_cells ?h fr) d mol sol p = Inr ?p'"
              by (auto simp: expand_solution_def Let_def)
            from sc have "node_of h4 ?child =
                \<lparr>score = score ?it + snd sol + c' - v, routes_info = routes_of h4 ir',
                  starting_materials = str_cells h4 sm'\<rparr>"
              by (simp add: node_of_def)
            then have "appended_alike s ?s' p ?p'" by (simp add: appended_alike_def)
            with r q show ?thesis by simp
          qed
        qed
      qed
    qed
  qed
qed

text \<open>
  The expansion of a node. \<open>expansion_related st p0 s p\<close>: from the states \<open>st\<close> and \<open>p0\<close> at
  the start to the states \<open>s\<close> and \<open>p\<close>, the cells of \<open>st\<close> are kept and the same nodes and
  answers have been appended, made of cells allocated since.
\<close>

definition expansion_related :: "ref_state \<Rightarrow> search_state \<Rightarrow> ref_state \<Rightarrow> search_state \<Rightarrow> bool" where
  "expansion_related st p0 s p \<longleftrightarrow>
     kept (next_free (store st)) (store st) (store s)
     \<and> (\<exists>children answers.
           ref_nxt_queue s = ref_nxt_queue st @ children \<and> ref_answer_set s = ref_answer_set st @ answers
           \<and> list_all (node_from (next_free (store st)) (store s)) children
           \<and> list_all (answer_from (next_free (store st)) (store s)) answers
           \<and> nxt_queue p = nxt_queue p0 @ map (node_of (store s)) children
           \<and> answer_set p = answer_set p0 @ map (answer_of (store s)) answers)"

lemma node_of_kept: "node_from lo h n \<Longrightarrow> kept (next_free h) h h' \<Longrightarrow> node_of h' n = node_of h n"
  by (auto simp: node_of_def routes_of_def node_from_def routes_from_def strs_from_def dict_from_def
      list_all_iff kept_iff)

lemma answer_of_kept: "answer_from lo h a \<Longrightarrow> kept (next_free h) h h' \<Longrightarrow> answer_of h' a = answer_of h a"
  by (auto simp: answer_of_def answer_from_def strs_from_def kept_iff)

lemma expansion_related_step:
  assumes rel: "expansion_related st p0 s p"
    and wf: "node_from 0 (store st) item" and fr: "fr < next_free (store st)"
  shows "case ref_expand_solution e item fr d mol sol s of
           Inl err \<Rightarrow> expand_solution e (node_of (store st) item) (str_cells (store st) fr) d mol sol p = Inl err
         | Inr s' \<Rightarrow> (\<exists>p'. expand_solution e (node_of (store st) item) (str_cells (store st) fr) d mol sol p = Inr p'
                          \<and> expansion_related st p0 s' p')"
proof -
  let ?n = "next_free (store st)"
  from rel have k: "kept ?n (store st) (store s)" by (simp add: expansion_related_def)
  from rel obtain cs as where
    cs: "ref_nxt_queue s = ref_nxt_queue st @ cs" "list_all (node_from ?n (store s)) cs"
      "nxt_queue p = nxt_queue p0 @ map (node_of (store s)) cs"
    and as: "ref_answer_set s = ref_answer_set st @ as" "list_all (answer_from ?n (store s)) as"
      "answer_set p = answer_set p0 @ map (answer_of (store s)) as"
    unfolding expansion_related_def by blast
  from k have ns: "?n \<le> next_free (store s)" by (simp add: kept_iff)
  from node_from_kept[OF wf k] have wfs: "node_from 0 (store s) item" .
  from fr ns have frs: "fr < next_free (store s)" by simp
  from node_of_kept[OF wf k] have it: "node_of (store s) item = node_of (store st) item" .
  from k fr have frv: "str_cells (store s) fr = str_cells (store st) fr" by (simp add: kept_iff)
  note sim = ref_expand_solution_refines[OF wfs frs, of e d mol sol p, unfolded it frv]
  show ?thesis
  proof (cases "ref_expand_solution e item fr d mol sol s")
    case (Inl err)
    with sim show ?thesis by simp
  next
    case (Inr s')
    with sim obtain p' where
      q: "expand_solution e (node_of (store st) item) (str_cells (store st) fr) d mol sol p = Inr p'"
      and al: "appended_alike s s' p p'" by auto
    note frm = ref_expand_solution_frame[OF Inr]
    from frm have ks: "kept (next_free (store s)) (store s) (store s')" by simp
    from kept_trans[OF k kept_mono[OF ks ns]] have k': "kept ?n (store st) (store s')" .
    from cs(2) ks have cs': "list_all (node_from ?n (store s')) cs"
      by (auto simp: list_all_iff intro: node_from_kept)
    from as(2) ks have as': "list_all (answer_from ?n (store s')) as"
      by (auto simp: list_all_iff intro: answer_from_kept)
    from cs(2) ks have csv: "map (node_of (store s')) cs = map (node_of (store s)) cs"
      by (auto simp: list_all_iff intro: node_of_kept)
    from as(2) ks have asv: "map (answer_of (store s')) as = map (answer_of (store s)) as"
      by (auto simp: list_all_iff intro: answer_of_kept)
    from al consider
      (child) child where "ref_nxt_queue s' = ref_nxt_queue s @ [child]" "ref_answer_set s' = ref_answer_set s"
        "nxt_queue p' = nxt_queue p @ [node_of (store s') child]" "answer_set p' = answer_set p"
    | (ans) ans where "ref_answer_set s' = ref_answer_set s @ [ans]" "ref_nxt_queue s' = ref_nxt_queue s"
        "answer_set p' = answer_set p @ [answer_of (store s') ans]" "nxt_queue p' = nxt_queue p"
      unfolding appended_alike_def by blast
    then have "expansion_related st p0 s' p'"
    proof cases
      case child
      from frm child(1,2) have "node_from (next_free (store s)) (store s') child" by auto
      with ns have "node_from ?n (store s') child"
        by (auto simp: node_from_def intro: routes_from_mono strs_from_mono)
      with cs' have a: "list_all (node_from ?n (store s')) (cs @ [child])" by simp
      from child(1) cs(1) have b: "ref_nxt_queue s' = ref_nxt_queue st @ (cs @ [child])" by simp
      from child(3) cs(3) csv have c: "nxt_queue p' = nxt_queue p0 @ map (node_of (store s')) (cs @ [child])" by simp
      from child(2) as(1) have d: "ref_answer_set s' = ref_answer_set st @ as" by simp
      from child(4) as(3) asv have e: "answer_set p' = answer_set p0 @ map (answer_of (store s')) as" by simp
      from k' a b c d e as' show ?thesis unfolding expansion_related_def by blast
    next
      case ans
      from frm ans(1,2) have "answer_from (next_free (store s)) (store s') ans" by auto
      with ns have "answer_from ?n (store s') ans"
        by (auto simp: answer_from_def intro: strs_from_mono)
      with as' have a: "list_all (answer_from ?n (store s')) (as @ [ans])" by simp
      from ans(1) as(1) have b: "ref_answer_set s' = ref_answer_set st @ (as @ [ans])" by simp
      from ans(3) as(3) asv have c: "answer_set p' = answer_set p0 @ map (answer_of (store s')) (as @ [ans])" by simp
      from ans(2) cs(1) have d: "ref_nxt_queue s' = ref_nxt_queue st @ cs" by simp
      from ans(4) cs(3) csv have e: "nxt_queue p' = nxt_queue p0 @ map (node_of (store s')) cs" by simp
      from k' a b c d e cs' show ?thesis unfolding expansion_related_def by blast
    qed
    with Inr q show ?thesis by simp
  qed
qed

lemma ref_expand_item_refines:
  assumes wf: "node_from 0 (store st) item"
  shows "case ref_expand_item gb e max_depth item st of
           Inl err \<Rightarrow> expand_item gb e max_depth (node_of (store st) item) p = Inl err
         | Inr st' \<Rightarrow> (\<exists>p'. expand_item gb e max_depth (node_of (store st) item) p = Inr p'
                           \<and> expansion_related st p st' p')"
proof -
  let ?h = "store st"
  let ?it = "node_of (store st) item"
  have init: "expansion_related st p st p" by (simp add: expansion_related_def kept_refl)
  show ?thesis
  proof (cases "list_cells ?h (ref_routes_info item)")
    case Nil
    then have "routes_info ?it = []" by (simp add: node_of_def routes_of_def)
    with Nil show ?thesis by (simp add: ref_expand_item_def expand_item_def)
  next
    case (Cons f others)
    obtain fr d where dc: "dict_cells ?h f = (fr, d)" by (cases "dict_cells ?h f") auto
    from wf Cons dc have fr: "fr < next_free ?h"
      by (auto simp: node_from_def routes_from_def dict_from_def)
    from Cons dc obtain more where ri: "routes_info ?it = \<lparr>route = str_cells ?h fr, depth = d\<rparr> # more"
      by (simp add: node_of_def routes_of_def)
    show ?thesis
    proof (cases "d > max_depth")
      case True
      with Cons dc ri init show ?thesis by (simp add: ref_expand_item_def expand_item_def)
    next
      case False
      note deep = False
      show ?thesis
      proof (cases "str_cells ?h fr = []")
        case True
        with Cons dc ri deep show ?thesis by (simp add: ref_expand_item_def expand_item_def)
      next
        case False
        show ?thesis
        proof (cases "gb (last (str_cells ?h fr)) (beam_size e)")
          case (Inl err)
          with Cons dc ri deep False show ?thesis by (simp add: ref_expand_item_def expand_item_def)
        next
          case (Inr sols)
          let ?p1 = "p\<lparr>beam_calls := beam_calls p @ [(str_cells ?h fr, d)]\<rparr>"
          have init1: "expansion_related st p st ?p1" by (simp add: expansion_related_def kept_refl)
          have "case for_each (ref_expand_solution e item fr d (last (str_cells ?h fr))) sols st of
                  Inl err \<Rightarrow> for_each (expand_solution e ?it (str_cells ?h fr) d (last (str_cells ?h fr))) sols ?p1 = Inl err
                | Inr s' \<Rightarrow> (\<exists>p'. for_each (expand_solution e ?it (str_cells ?h fr) d (last (str_cells ?h fr))) sols ?p1 = Inr p'
                                 \<and> expansion_related st p s' p')"
            by (rule for_each_related[where R = "expansion_related st p", OF init1])
               (rule expansion_related_step[OF _ wf fr])
          moreover have "ref_expand_item gb e max_depth item st =
              for_each (ref_expand_solution e item fr d (last (str_cells ?h fr))) sols st"
            using Cons dc deep False Inr by (simp add: ref_expand_item_def)
          moreover have "expand_item gb e max_depth ?it p =
              for_each (expand_solution e ?it (str_cells ?h fr) d (last (str_cells ?h fr))) sols ?p1"
            using ri deep False Inr by (simp add: expand_item_def)
          ultimately show ?thesis by (simp split: sum.splits)
        qed
      qed
    qed
  qed
qed


subsection \<open>Expanding a node does not modify it\<close>

text \<open>
  C9. Expanding a node never modifies that node. When the expansion of \<open>item\<close> (the body of
  \<open>for item in queue\<close>, with all the children it builds) returns from a store in which the
  objects of \<open>item\<close> are allocated, the list \<open>routes_info\<close> of \<open>item\<close> holds the same
  dictionaries, these hold the same paths and depths, and the list \<open>starting_materials\<close> holds
  the same strings as before; indeed every cell that was allocated before the expansion
  holds what it held. The nodes appended to \<open>nxt_queue\<close> and the answers appended to
  \<open>answer_set\<close> are built from copies: their lists, the dictionaries in them and the path
  lists of these are cells allocated during the expansion, none of them a cell of the
  parent.
\<close>

theorem expansion_leaves_parent:
  assumes "ref_expand_item gb e max_depth item st = Inr st'"
    and "node_from 0 (store st) item"
  shows "list_cells (store st') (ref_routes_info item) = list_cells (store st) (ref_routes_info item)
       \<and> routes_of (store st') (ref_routes_info item) = routes_of (store st) (ref_routes_info item)
       \<and> str_cells (store st') (ref_starting_materials item) = str_cells (store st) (ref_starting_materials item)
       \<and> node_of (store st') item = node_of (store st) item
       \<and> kept (next_free (store st)) (store st) (store st')
       \<and> (\<exists>children. ref_nxt_queue st' = ref_nxt_queue st @ children
                     \<and> list_all (node_from (next_free (store st)) (store st')) children)
       \<and> (\<exists>answers. ref_answer_set st' = ref_answer_set st @ answers
                     \<and> list_all (answer_from (next_free (store st)) (store st')) answers)"
proof -
  note fr = ref_expand_item_frame[OF assms(1)]
  from fr have k: "kept (next_free (store st)) (store st) (store st')" by simp
  from assms(2) have r: "routes_from 0 (store st) (ref_routes_info item)"
    and m: "strs_from 0 (store st) (ref_starting_materials item)" by (simp_all add: node_from_def)
  from r k have l: "list_cells (store st') (ref_routes_info item) = list_cells (store st) (ref_routes_info item)"
    by (simp add: routes_from_def kept_iff)
  from routes_of_kept[OF r k]
  have ro: "routes_of (store st') (ref_routes_info item) = routes_of (store st) (ref_routes_info item)" .
  from m k have sm: "str_cells (store st') (ref_starting_materials item) = str_cells (store st) (ref_starting_materials item)"
    by (simp add: strs_from_def kept_iff)
  from ro sm have n: "node_of (store st') item = node_of (store st) item" by (simp add: node_of_def)
  from l ro sm n fr show ?thesis by (intro conjI) simp_all
qed

lemma toy_expansion:
  "case ref_expand_item toy_decoder toy_env 2 toy_parent toy_ref_state of
     Inl err \<Rightarrow> False
   | Inr st' \<Rightarrow>
       ref_nxt_queue st' =
         [\<lparr>ref_score = 2, ref_routes_info = 14, ref_starting_materials = 11\<rparr>,
          \<lparr>ref_score = 2, ref_routes_info = 19, ref_starting_materials = 20\<rparr>]
       \<and> map (node_of (store st')) (ref_nxt_queue st') =
         [\<lparr>score = 2,
           routes_info = [\<lparr>route = [''CC'', ''CO'', ''N''], depth = 2\<rparr>, \<lparr>route = [''CC'', ''N''], depth = 1\<rparr>],
           starting_materials = [''C'']\<rparr>,
          \<lparr>score = 2,
           routes_info = [\<lparr>route = [''CC'', ''N''], depth = 1\<rparr>],
           starting_materials = [''C'', ''C'', ''O'']\<rparr>]
       \<and> ref_answer_set st' = []
       \<and> next_free (store st') = 21"
  by (simp add: ref_expand_item_def ref_expand_solution_def ref_partition_reactant_def
      deepcopy_routes_def deepcopy_dict_def deepcopy_route_def deepcopy_strs_def pop_first_def
      append_str_def new_strs_def new_dict_def new_list_def node_of_def routes_of_def
      toy_store_def toy_parent_def toy_ref_state_def toy_decoder_def toy_env_def
      check_reactant_is_material_def inchikey14_def value_fn_def Let_def)

theorem expansion_leaves_parent_witness:
  "node_from 0 (store toy_ref_state) toy_parent
   \<and> node_of (store toy_ref_state) toy_parent =
       \<lparr>score = 2,
        routes_info = [\<lparr>route = [''CC'', ''CO''], depth = 1\<rparr>, \<lparr>route = [''CC'', ''N''], depth = 1\<rparr>],
        starting_materials = [''C'']\<rparr>
   \<and> next_free (store toy_ref_state) = 6
   \<and> (\<exists>st'. ref_expand_item toy_decoder toy_env 2 toy_parent toy_ref_state = Inr st'
          \<and> ref_nxt_queue st' =
              [\<lparr>ref_score = 2, ref_routes_info = 14, ref_starting_materials = 11\<rparr>,
               \<lparr>ref_score = 2, ref_routes_info = 19, ref_starting_materials = 20\<rparr>]
          \<and> map (node_of (store st')) (ref_nxt_queue st') =
              [\<lparr>score = 2,
                routes_info = [\<lparr>route = [''CC'', ''CO'', ''N''], depth = 2\<rparr>, \<lparr>route = [''CC'', ''N''], depth = 1\<rparr>],
                starting_materials = [''C'']\<rparr>,
               \<lparr>score = 2,
                routes_info = [\<lparr>route = [''CC'', ''N''], depth = 1\<rparr>],
                starting_materials = [''C'', ''C'', ''O'']\<rparr>]
          \<and> list_cells (store st') 4 = [1, 3]
          \<and> node_of (store st') toy_parent =
              \<lparr>score = 2,
               routes_info = [\<lparr>route = [''CC'', ''CO''], depth = 1\<rparr>, \<lparr>route = [''CC'', ''N''], depth = 1\<rparr>],
               starting_materials = [''C'']\<rparr>
          \<and> kept 6 toy_store (store st')
          \<and> list_all (node_from 6 (store st')) (ref_nxt_queue st'))"
proof -
  have wf: "node_from 0 (store toy_ref_state) toy_parent"
    by (simp add: node_from_def routes_from_def strs_from_def dict_from_def
        toy_ref_state_def toy_store_def toy_parent_def)
  have before: "node_of (store toy_ref_state) toy_parent =
       \<lparr>score = 2,
        routes_info = [\<lparr>route = [''CC'', ''CO''], depth = 1\<rparr>, \<lparr>route = [''CC'', ''N''], depth = 1\<rparr>],
        starting_materials = [''C'']\<rparr>"
    by (simp add: node_of_def routes_of_def toy_ref_state_def toy_store_def toy_parent_def)
  have nf: "next_free (store toy_ref_state) = 6" and st: "store toy_ref_state = toy_store"
    and q0: "ref_nxt_queue toy_ref_state = []"
    and cells: "list_cells (store toy_ref_state) (ref_routes_info toy_parent) = [1, 3]"
    and ri: "ref_routes_info toy_parent = 4"
    by (simp_all add: toy_ref_state_def toy_store_def toy_parent_def)
  from toy_expansion obtain st' where
    run: "ref_expand_item toy_decoder toy_env 2 toy_parent toy_ref_state = Inr st'"
    and q: "ref_nxt_queue st' =
              [\<lparr>ref_score = 2, ref_routes_info = 14, ref_starting_materials = 11\<rparr>,
               \<lparr>ref_score = 2, ref_routes_info = 19, ref_starting_materials = 20\<rparr>]"
    and v: "map (node_of (store st')) (ref_nxt_queue st') =
              [\<lparr>score = 2,
                routes_info = [\<lparr>route = [''CC'', ''CO'', ''N''], depth = 2\<rparr>, \<lparr>route = [''CC'', ''N''], depth = 1\<rparr>],
                starting_materials = [''C'']\<rparr>,
               \<lparr>score = 2,
                routes_info = [\<lparr>route = [''CC'', ''N''], depth = 1\<rparr>],
                starting_materials = [''C'', ''C'', ''O'']\<rparr>]"
    by (cases "ref_expand_item toy_decoder toy_env 2 toy_parent toy_ref_state") auto
  note th = expansion_leaves_parent[OF run wf]
  from th cells ri have c: "list_cells (store st') 4 = [1, 3]" by simp
  from th before have n: "node_of (store st') toy_parent =
              \<lparr>score = 2,
               routes_info = [\<lparr>route = [''CC'', ''CO''], depth = 1\<rparr>, \<lparr>route = [''CC'', ''N''], depth = 1\<rparr>],
               starting_materials = [''C'']\<rparr>" by simp
  from th nf st have k: "kept 6 toy_store (store st')" by simp
  from th q0 nf have f: "list_all (node_from 6 (store st')) (ref_nxt_queue st')" by auto
  from wf before nf run q v c n k f show ?thesis by (intro conjI exI[of _ st'])
qed

end
